theory Spec2Isabelle
  imports Complex_Main
begin

section \<open>The inertia-tensor engine of halotools, embedded\<close>

text \<open>
  The development embeds \<^verbatim>\<open>inertia_tensor_per_object_engine\<close>, the Cython
  function that accumulates, for every point of sample 1, the weighted second moments of
  the separations to the points of sample 2 that lie within a smoothing radius.

  Conventions of the embedding.
  \<^item> A \<^verbatim>\<open>float64\<close> is a \<^typ>\<open>real\<close>: rounding, infinities and NaN are not
    modelled.
  \<^item> The C integers (\<^verbatim>\<open>int\<close>, \<^verbatim>\<open>int64_t\<close>) are \<^typ>\<open>int\<close>: the model
    covers the runs in which no intermediate value leaves its C type.
  \<^item> Cython's \<^verbatim>\<open>//\<close> and \<^verbatim>\<open>%\<close> on C integers keep Python's semantics
    (the \<^verbatim>\<open>cdivision\<close> directive is off): floor division, and
    \<^verbatim>\<open>ZeroDivisionError\<close> on a zero divisor.
  \<^item> The function is compiled with \<^verbatim>\<open>boundscheck(False)\<close> and
    \<^verbatim>\<open>wraparound(False)\<close>: an element access of a typed memoryview outside
    \<^verbatim>\<open>[0, len)\<close> is undefined behaviour in C. The model makes it the error value
    \<open>OutOfBounds\<close>. Slicing a memoryview (\<^verbatim>\<open>a[i:j]\<close>) clamps like a Python slice.
  \<^item> An exception is the \<open>Inl\<close> branch of a sum; the in-place updates of the two
    output arrays are explicit state passing.
\<close>

subsection \<open>Errors and control\<close>

datatype error = IndexError | ZeroDivisionError | TypeError | OutOfBounds

definition bind_r :: "error + 'a \<Rightarrow> ('a \<Rightarrow> error + 'b) \<Rightarrow> error + 'b" where
  "bind_r m f = (case m of Inl e \<Rightarrow> Inl e | Inr v \<Rightarrow> f v)"

text \<open>A \<^verbatim>\<open>for\<close> loop over a list of indices, stopping at the first error.\<close>

primrec for_each :: "'i list \<Rightarrow> ('i \<Rightarrow> 's \<Rightarrow> error + 's) \<Rightarrow> 's \<Rightarrow> error + 's" where
  "for_each [] body s = Inr s"
| "for_each (i # rest) body s = bind_r (body i s) (for_each rest body)"

text \<open>Python's \<^verbatim>\<open>range(a, b)\<close>: empty when \<open>b \<le> a\<close>.\<close>

definition py_range :: "int \<Rightarrow> int \<Rightarrow> int list" where
  "py_range a b = [a..b - 1]"

subsection \<open>Arrays\<close>

text \<open>
  \<^verbatim>\<open>a[k]\<close> inside numpy's integer-array indexing \<^verbatim>\<open>a[idx]\<close>: a negative
  index counts from the end, an index outside \<^verbatim>\<open>[-len, len)\<close> raises
  \<^verbatim>\<open>IndexError\<close>. The result of \<^verbatim>\<open>a[idx]\<close> is a new array.
\<close>

definition np_index :: "'a list \<Rightarrow> int \<Rightarrow> error + 'a" where
  "np_index xs k =
     (let n = int (length xs); k' = (if k < 0 then k + n else k)
      in if 0 \<le> k' \<and> k' < n then Inr (xs ! nat k') else Inl IndexError)"

primrec np_take :: "'a list \<Rightarrow> int list \<Rightarrow> error + 'a list" where
  "np_take xs [] = Inr []"
| "np_take xs (k # ks) =
     bind_r (np_index xs k) (\<lambda>v. bind_r (np_take xs ks) (\<lambda>vs. Inr (v # vs)))"

text \<open>Unchecked element read \<^verbatim>\<open>a[i]\<close> of a typed memoryview.\<close>

definition mv_get :: "'a list \<Rightarrow> int \<Rightarrow> error + 'a" where
  "mv_get xs i = (if 0 \<le> i \<and> i < int (length xs) then Inr (xs ! nat i) else Inl OutOfBounds)"

text \<open>Unchecked in-place update \<^verbatim>\<open>a[i] += ...\<close> of a typed memoryview.\<close>

definition mv_iadd :: "'a list \<Rightarrow> int \<Rightarrow> ('a \<Rightarrow> 'a) \<Rightarrow> error + 'a list" where
  "mv_iadd xs i f =
     (if 0 \<le> i \<and> i < int (length xs) then Inr (xs[nat i := f (xs ! nat i)]) else Inl OutOfBounds)"

text \<open>The slice \<^verbatim>\<open>a[start:stop]\<close> of a memoryview.\<close>

definition mv_slice :: "'a list \<Rightarrow> int \<Rightarrow> int \<Rightarrow> 'a list" where
  "mv_slice xs start stop =
     (let n = int (length xs);
          a = (if start < 0 then max 0 (start + n) else min start n);
          b = (if stop < 0 then max 0 (stop + n) else min stop n)
      in take (nat (b - a)) (drop (nat a) xs))"

subsection \<open>The double mesh\<close>

text \<open>
  The attributes of \<^verbatim>\<open>RectangularDoubleMesh\<close> and of its two meshes that the
  engine reads. The class itself is not part of the sources; its attributes are inputs.
\<close>

record mesh =
  num_xdivs :: int
  num_ydivs :: int
  num_zdivs :: int
  xcell_size :: real
  ycell_size :: real
  zcell_size :: real
  ncells :: int
  cell_id_indices :: "int list"
  idx_sorted :: "int list"

record double_mesh =
  mesh1 :: mesh
  mesh2 :: mesh
  xperiod :: real
  yperiod :: real
  zperiod :: real
  PBCs :: bool
  search_xlength :: real
  search_ylength :: real
  search_zlength :: real

text \<open>One entry \<^verbatim>\<open>inertia_tensor[p, :, :]\<close> of the output: nine floats.\<close>

record tensor3 =
  t00 :: real
  t01 :: real
  t02 :: real
  t10 :: real
  t11 :: real
  t12 :: real
  t20 :: real
  t21 :: real
  t22 :: real

definition tensor_zero :: tensor3 where
  "tensor_zero = \<lparr>t00 = 0, t01 = 0, t02 = 0, t10 = 0, t11 = 0, t12 = 0, t20 = 0, t21 = 0, t22 = 0\<rparr>"

text \<open>The two output arrays, \<^verbatim>\<open>inertia_tensor\<close> and \<^verbatim>\<open>sum_weights\<close>.\<close>

type_synonym accum = "tensor3 list \<times> real list"

text \<open>
  Modelled from the spec: \<^verbatim>\<open>unsorting_indices\<close> of \<^verbatim>\<open>halotools.utils\<close>
  is not among the sources. The spec: given a permutation P such that
  sorted[i] = original[P[i]], produce the inverse permutation Q such that
  original[j] = sorted[Q[j]]. So \<open>Q[j]\<close> is the position of \<open>j\<close> in \<open>P\<close>.
\<close>

primrec position_of :: "int \<Rightarrow> int list \<Rightarrow> int" where
  "position_of j [] = 0"
| "position_of j (k # ks) = (if k = j then 0 else 1 + position_of j ks)"

definition unsorting_indices :: "int list \<Rightarrow> int list" where
  "unsorting_indices P = map (\<lambda>j. position_of j P) [0..int (length P) - 1]"

subsection \<open>The engine\<close>

text \<open>The C locals the engine fixes before its main loop (source lines 49 to 118).\<close>

record locals =
  rsmooth_squared :: real
  dm :: double_mesh
  x1_sorted :: "real list"
  y1_sorted :: "real list"
  z1_sorted :: "real list"
  x2_sorted :: "real list"
  y2_sorted :: "real list"
  z2_sorted :: "real list"
  w2_sorted :: "real list"
  cell1_indices :: "int list"
  cell2_indices :: "int list"
  num_x2_covering_steps :: int
  num_y2_covering_steps :: int
  num_z2_covering_steps :: int
  num_x2_per_x1 :: int
  num_y2_per_y1 :: int
  num_z2_per_z1 :: int

text \<open>
  Lines 208 to 228: the ten \<^verbatim>\<open>+=\<close> statements for one pair, on entry \<open>p\<close>
  (\<^verbatim>\<open>ifirst1 + i\<close>) of the two output arrays.
\<close>

definition accumulate :: "int \<Rightarrow> real \<Rightarrow> real \<Rightarrow> real \<Rightarrow> real \<Rightarrow> accum \<Rightarrow> error + accum" where
  "accumulate p dx dy dz w2 s =
     (let xx = dx * dx * w2; yy = dy * dy * w2; zz = dz * dz * w2;
          xy = dx * dy * w2; xz = dx * dz * w2; yz = dy * dz * w2
      in bind_r (mv_iadd (fst s) p (\<lambda>t. t\<lparr>t00 := t00 t + xx\<rparr>)) (\<lambda>T1.
         bind_r (mv_iadd T1 p (\<lambda>t. t\<lparr>t11 := t11 t + yy\<rparr>)) (\<lambda>T2.
         bind_r (mv_iadd T2 p (\<lambda>t. t\<lparr>t22 := t22 t + zz\<rparr>)) (\<lambda>T3.
         bind_r (mv_iadd T3 p (\<lambda>t. t\<lparr>t01 := t01 t + xy\<rparr>)) (\<lambda>T4.
         bind_r (mv_iadd T4 p (\<lambda>t. t\<lparr>t10 := t10 t + xy\<rparr>)) (\<lambda>T5.
         bind_r (mv_iadd T5 p (\<lambda>t. t\<lparr>t02 := t02 t + xz\<rparr>)) (\<lambda>T6.
         bind_r (mv_iadd T6 p (\<lambda>t. t\<lparr>t20 := t20 t + xz\<rparr>)) (\<lambda>T7.
         bind_r (mv_iadd T7 p (\<lambda>t. t\<lparr>t12 := t12 t + yz\<rparr>)) (\<lambda>T8.
         bind_r (mv_iadd T8 p (\<lambda>t. t\<lparr>t21 := t21 t + yz\<rparr>)) (\<lambda>T9.
         bind_r (mv_iadd (snd s) p (\<lambda>w. w + w2)) (\<lambda>W.
         Inr (T9, W))))))))))))"

text \<open>Lines 199 to 228: the body of the loop over \<open>j\<close>, the points of the cell of mesh 2.\<close>

definition pair_step ::
  "real \<Rightarrow> int \<Rightarrow> real \<Rightarrow> real \<Rightarrow> real \<Rightarrow> real list \<Rightarrow> real list \<Rightarrow> real list \<Rightarrow> real list
     \<Rightarrow> int \<Rightarrow> accum \<Rightarrow> error + accum" where
  "pair_step rsq p x1tmp y1tmp z1tmp x_icell2 y_icell2 z_icell2 w_icell2 j s =
     bind_r (mv_get x_icell2 j) (\<lambda>x2.
     bind_r (mv_get y_icell2 j) (\<lambda>y2.
     bind_r (mv_get z_icell2 j) (\<lambda>z2.
       let dx = x1tmp - x2; dy = y1tmp - y2; dz = z1tmp - z2;
           dsq = dx * dx + dy * dy + dz * dz
       in bind_r (mv_get w_icell2 j) (\<lambda>w2.
            if dsq < rsq then accumulate p dx dy dz w2 s else Inr s))))"

text \<open>Lines 186 to 228: the body of the loop over \<open>i\<close>, the points of the cell of mesh 1.\<close>

definition point_step ::
  "real \<Rightarrow> int \<Rightarrow> real list \<Rightarrow> real list \<Rightarrow> real list \<Rightarrow> real \<Rightarrow> real \<Rightarrow> real
     \<Rightarrow> real list \<Rightarrow> real list \<Rightarrow> real list \<Rightarrow> real list \<Rightarrow> int
     \<Rightarrow> int \<Rightarrow> accum \<Rightarrow> error + accum" where
  "point_step rsq ifirst1 x_icell1 y_icell1 z_icell1 x2shift y2shift z2shift
       x_icell2 y_icell2 z_icell2 w_icell2 Nj i s =
     bind_r (mv_get x_icell1 i) (\<lambda>x1.
     bind_r (mv_get y_icell1 i) (\<lambda>y1.
     bind_r (mv_get z_icell1 i) (\<lambda>z1.
       let x1tmp = x1 - x2shift; y1tmp = y1 - y2shift; z1tmp = z1 - z2shift
       in for_each (py_range 0 Nj)
            (pair_step rsq (ifirst1 + i) x1tmp y1tmp z1tmp x_icell2 y_icell2 z_icell2 w_icell2)
            s)))"

text \<open>
  Lines 144 to 149 (and their copies for \<open>y\<close> and \<open>z\<close>): the shift of an unwrapped cell
  index. \<^verbatim>\<open>PBCs\<close> is a C int holding the mesh's boolean.
\<close>

definition shift_of :: "bool \<Rightarrow> real \<Rightarrow> int \<Rightarrow> int \<Rightarrow> real" where
  "shift_of pbcs period num_divs nonPBC_i2 =
     (if nonPBC_i2 < 0 then - period * of_bool pbcs
      else if nonPBC_i2 \<ge> num_divs then period * of_bool pbcs
      else 0)"

text \<open>Line 151 (and 161, 171): \<^verbatim>\<open>nonPBC_ix2 % num_x2divs\<close>.\<close>

definition py_mod :: "int \<Rightarrow> int \<Rightarrow> error + int" where
  "py_mod a b = (if b = 0 then Inl ZeroDivisionError else Inr (a mod b))"

definition py_floordiv :: "int \<Rightarrow> int \<Rightarrow> error + int" where
  "py_floordiv a b = (if b = 0 then Inl ZeroDivisionError else Inr (a div b))"

text \<open>Lines 173 to 228: one cell of mesh 2 against the current cell of mesh 1.\<close>

definition cell_pair ::
  "locals \<Rightarrow> int \<Rightarrow> int \<Rightarrow> real list \<Rightarrow> real list \<Rightarrow> real list
     \<Rightarrow> int \<Rightarrow> int \<Rightarrow> int \<Rightarrow> real \<Rightarrow> real \<Rightarrow> real \<Rightarrow> accum \<Rightarrow> error + accum" where
  "cell_pair L ifirst1 Ni x_icell1 y_icell1 z_icell1 ix2 iy2 iz2 x2shift y2shift z2shift s =
     (let num_y2divs = num_ydivs (mesh2 (dm L)); num_z2divs = num_zdivs (mesh2 (dm L));
          icell2 = ix2 * (num_y2divs * num_z2divs) + iy2 * num_z2divs + iz2
      in bind_r (mv_get (cell2_indices L) icell2) (\<lambda>ifirst2.
         bind_r (mv_get (cell2_indices L) (icell2 + 1)) (\<lambda>ilast2.
           let x_icell2 = mv_slice (x2_sorted L) ifirst2 ilast2;
               y_icell2 = mv_slice (y2_sorted L) ifirst2 ilast2;
               z_icell2 = mv_slice (z2_sorted L) ifirst2 ilast2;
               w_icell2 = mv_slice (w2_sorted L) ifirst2 ilast2;
               Nj = ilast2 - ifirst2
           in if Nj > 0
              then for_each (py_range 0 Ni)
                     (point_step (rsmooth_squared L) ifirst1 x_icell1 y_icell1 z_icell1
                        x2shift y2shift z2shift x_icell2 y_icell2 z_icell2 w_icell2 Nj)
                     s
              else Inr s)))"

text \<open>Lines 163 to 228, 153 to 228 and 143 to 228: the three loops over the window.\<close>

definition z_step ::
  "locals \<Rightarrow> int \<Rightarrow> int \<Rightarrow> real list \<Rightarrow> real list \<Rightarrow> real list
     \<Rightarrow> int \<Rightarrow> real \<Rightarrow> int \<Rightarrow> real \<Rightarrow> int \<Rightarrow> accum \<Rightarrow> error + accum" where
  "z_step L ifirst1 Ni x_icell1 y_icell1 z_icell1 ix2 x2shift iy2 y2shift nonPBC_iz2 s =
     (let num_z2divs = num_zdivs (mesh2 (dm L));
          z2shift = shift_of (PBCs (dm L)) (zperiod (dm L)) num_z2divs nonPBC_iz2
      in bind_r (py_mod nonPBC_iz2 num_z2divs) (\<lambda>iz2.
           cell_pair L ifirst1 Ni x_icell1 y_icell1 z_icell1 ix2 iy2 iz2 x2shift y2shift z2shift s))"

definition y_step ::
  "locals \<Rightarrow> int \<Rightarrow> int \<Rightarrow> real list \<Rightarrow> real list \<Rightarrow> real list
     \<Rightarrow> int \<Rightarrow> int \<Rightarrow> int \<Rightarrow> real \<Rightarrow> int \<Rightarrow> accum \<Rightarrow> error + accum" where
  "y_step L ifirst1 Ni x_icell1 y_icell1 z_icell1 leftmost_iz2 rightmost_iz2 ix2 x2shift nonPBC_iy2 s =
     (let num_y2divs = num_ydivs (mesh2 (dm L));
          y2shift = shift_of (PBCs (dm L)) (yperiod (dm L)) num_y2divs nonPBC_iy2
      in bind_r (py_mod nonPBC_iy2 num_y2divs) (\<lambda>iy2.
           for_each (py_range leftmost_iz2 rightmost_iz2)
             (z_step L ifirst1 Ni x_icell1 y_icell1 z_icell1 ix2 x2shift iy2 y2shift) s))"

definition x_step ::
  "locals \<Rightarrow> int \<Rightarrow> int \<Rightarrow> real list \<Rightarrow> real list \<Rightarrow> real list
     \<Rightarrow> int \<Rightarrow> int \<Rightarrow> int \<Rightarrow> int \<Rightarrow> int \<Rightarrow> accum \<Rightarrow> error + accum" where
  "x_step L ifirst1 Ni x_icell1 y_icell1 z_icell1 leftmost_iy2 rightmost_iy2
       leftmost_iz2 rightmost_iz2 nonPBC_ix2 s =
     (let num_x2divs = num_xdivs (mesh2 (dm L));
          x2shift = shift_of (PBCs (dm L)) (xperiod (dm L)) num_x2divs nonPBC_ix2
      in bind_r (py_mod nonPBC_ix2 num_x2divs) (\<lambda>ix2.
           for_each (py_range leftmost_iy2 rightmost_iy2)
             (y_step L ifirst1 Ni x_icell1 y_icell1 z_icell1 leftmost_iz2 rightmost_iz2 ix2 x2shift) s))"

text \<open>Lines 122 to 228: the body of the main loop, for the cell \<open>icell1\<close> of mesh 1.\<close>

definition cell1_step :: "locals \<Rightarrow> int \<Rightarrow> accum \<Rightarrow> error + accum" where
  "cell1_step L icell1 s =
     bind_r (mv_get (cell1_indices L) icell1) (\<lambda>ifirst1.
     bind_r (mv_get (cell1_indices L) (icell1 + 1)) (\<lambda>ilast1.
       let x_icell1 = mv_slice (x1_sorted L) ifirst1 ilast1;
           y_icell1 = mv_slice (y1_sorted L) ifirst1 ilast1;
           z_icell1 = mv_slice (z1_sorted L) ifirst1 ilast1;
           Ni = ilast1 - ifirst1
       in if Ni > 0
          then
            let num_y1divs = num_ydivs (mesh1 (dm L)); num_z1divs = num_zdivs (mesh1 (dm L))
            in bind_r (py_floordiv icell1 (num_y1divs * num_z1divs)) (\<lambda>ix1.
               bind_r (py_floordiv (icell1 - ix1 * num_y1divs * num_z1divs) num_z1divs) (\<lambda>iy1.
                 let iz1 = icell1 - (ix1 * num_y1divs * num_z1divs) - (iy1 * num_z1divs);
                     leftmost_ix2 = ix1 * num_x2_per_x1 L - num_x2_covering_steps L;
                     leftmost_iy2 = iy1 * num_y2_per_y1 L - num_y2_covering_steps L;
                     leftmost_iz2 = iz1 * num_z2_per_z1 L - num_z2_covering_steps L;
                     rightmost_ix2 = (ix1 + 1) * num_x2_per_x1 L + num_x2_covering_steps L;
                     rightmost_iy2 = (iy1 + 1) * num_y2_per_y1 L + num_y2_covering_steps L;
                     rightmost_iz2 = (iz1 + 1) * num_z2_per_z1 L + num_z2_covering_steps L
                 in for_each (py_range leftmost_ix2 rightmost_ix2)
                      (x_step L ifirst1 Ni x_icell1 y_icell1 z_icell1 leftmost_iy2 rightmost_iy2
                         leftmost_iz2 rightmost_iz2)
                      s))
          else Inr s))"

text \<open>
  Lines 87 to 92: \<^verbatim>\<open>int(np.ceil(search_length / cell_size))\<close>. A zero cell size
  makes the line raise (the division of Python floats does, and for numpy scalars the
  conversion of an infinity or a NaN to \<^verbatim>\<open>int\<close> does); the model reports
  \<open>ZeroDivisionError\<close>.
\<close>

definition covering_steps :: "real \<Rightarrow> real \<Rightarrow> error + int" where
  "covering_steps search_length cell_size =
     (if cell_size = 0 then Inl ZeroDivisionError else Inr (\<lceil>search_length / cell_size\<rceil>))"

text \<open>Lines 49 to 118: the set-up. The sorted copies are made by numpy indexing.\<close>

definition engine_locals ::
  "double_mesh \<Rightarrow> real list \<Rightarrow> real list \<Rightarrow> real list \<Rightarrow> real list \<Rightarrow> real list \<Rightarrow> real list
     \<Rightarrow> real list \<Rightarrow> real \<Rightarrow> error + locals" where
  "engine_locals double_mesh x1in y1in z1in x2in y2in z2in weights2in rsmooth =
     bind_r (np_take x1in (idx_sorted (mesh1 double_mesh))) (\<lambda>x1s.
     bind_r (np_take y1in (idx_sorted (mesh1 double_mesh))) (\<lambda>y1s.
     bind_r (np_take z1in (idx_sorted (mesh1 double_mesh))) (\<lambda>z1s.
     bind_r (np_take x2in (idx_sorted (mesh2 double_mesh))) (\<lambda>x2s.
     bind_r (np_take y2in (idx_sorted (mesh2 double_mesh))) (\<lambda>y2s.
     bind_r (np_take z2in (idx_sorted (mesh2 double_mesh))) (\<lambda>z2s.
     bind_r (np_take weights2in (idx_sorted (mesh2 double_mesh))) (\<lambda>w2s.
     bind_r (covering_steps (search_xlength double_mesh) (xcell_size (mesh2 double_mesh))) (\<lambda>cx.
     bind_r (covering_steps (search_ylength double_mesh) (ycell_size (mesh2 double_mesh))) (\<lambda>cy.
     bind_r (covering_steps (search_zlength double_mesh) (zcell_size (mesh2 double_mesh))) (\<lambda>cz.
     bind_r (py_floordiv (num_xdivs (mesh2 double_mesh)) (num_xdivs (mesh1 double_mesh))) (\<lambda>px.
     bind_r (py_floordiv (num_ydivs (mesh2 double_mesh)) (num_ydivs (mesh1 double_mesh))) (\<lambda>py.
     bind_r (py_floordiv (num_zdivs (mesh2 double_mesh)) (num_zdivs (mesh1 double_mesh))) (\<lambda>pz.
       Inr \<lparr>rsmooth_squared = rsmooth * rsmooth, dm = double_mesh,
            x1_sorted = x1s, y1_sorted = y1s, z1_sorted = z1s,
            x2_sorted = x2s, y2_sorted = y2s, z2_sorted = z2s, w2_sorted = w2s,
            cell1_indices = cell_id_indices (mesh1 double_mesh),
            cell2_indices = cell_id_indices (mesh2 double_mesh),
            num_x2_covering_steps = cx, num_y2_covering_steps = cy, num_z2_covering_steps = cz,
            num_x2_per_x1 = px, num_y2_per_y1 = py, num_z2_per_z1 = pz\<rparr>)))))))))))))"

text \<open>Lines 121 to 228: the main loop, from the zero-initialised output arrays.\<close>

definition engine_loops :: "locals \<Rightarrow> int \<times> int \<Rightarrow> error + accum" where
  "engine_loops L cell1_tuple =
     (let npts1 = length (x1_sorted L)
      in for_each (py_range (fst cell1_tuple) (snd cell1_tuple)) (cell1_step L)
           (replicate npts1 tensor_zero, replicate npts1 0))"

text \<open>Lines 233 to 237: the outputs, put back in the order of the input points.\<close>

definition unsort :: "int list \<Rightarrow> accum \<Rightarrow> error + accum" where
  "unsort idx s =
     (let idx_unsorted = unsorting_indices idx
      in bind_r (np_take (snd s) idx_unsorted) (\<lambda>sum_weights_array.
         bind_r (np_take (fst s) idx_unsorted) (\<lambda>tensor.
           Inr (tensor, sum_weights_array))))"

definition inertia_tensor_per_object_engine ::
  "double_mesh \<Rightarrow> real list \<Rightarrow> real list \<Rightarrow> real list \<Rightarrow> real list \<Rightarrow> real list \<Rightarrow> real list
     \<Rightarrow> real list \<Rightarrow> real \<Rightarrow> int \<times> int \<Rightarrow> error + accum" where
  "inertia_tensor_per_object_engine double_mesh x1in y1in z1in x2in y2in z2in weights2in
       rsmooth cell1_tuple =
     bind_r (engine_locals double_mesh x1in y1in z1in x2in y2in z2in weights2in rsmooth) (\<lambda>L.
     bind_r (engine_loops L cell1_tuple) (\<lambda>s.
       unsort (idx_sorted (mesh1 double_mesh)) s))"

subsection \<open>The engine on a store of arrays\<close>

text \<open>
  A claim about the arrays of the caller needs the arrays as objects. This is the same
  function again, line by line, on a store: an array is an entry of the store, named by
  its address, and a new array takes the next address. A typed memoryview is the address
  of its array with the window it exposes; slicing a view makes a view of the same array.
  A name that is not bound to an array of the expected kind raises
  \<^verbatim>\<open>TypeError\<close>.

  A computation returns its result, or its exception, with the store it leaves. The
  function is compiled with \<^verbatim>\<open>boundscheck(False)\<close> and
  \<^verbatim>\<open>wraparound(False)\<close> (lines 15 and 16): an element access of a typed
  memoryview is the access of the memory at the computed offset, whatever the index, and
  outside the array it is undefined behaviour in C. Such a run has no outcome to speak
  of: it is \<open>None\<close>.
\<close>

type_synonym addr = nat

datatype array = Floats "real list" | Tensors "tensor3 list"

type_synonym heap = "array list"

type_synonym 'a hres = "((error + 'a) \<times> heap) option"

definition lift_h :: "error + 'a \<Rightarrow> heap \<Rightarrow> 'a hres" where
  "lift_h r h = Some (r, h)"

text \<open>
  The result of an unchecked element access, computed on the contents of the array: an
  index outside the array is undefined behaviour.
\<close>

definition unchecked_h :: "error + 'a \<Rightarrow> heap \<Rightarrow> 'a hres" where
  "unchecked_h r h = (case r of Inl e \<Rightarrow> None | Inr v \<Rightarrow> Some (Inr v, h))"

definition bind_h :: "(heap \<Rightarrow> 'a hres) \<Rightarrow> ('a \<Rightarrow> heap \<Rightarrow> 'b hres) \<Rightarrow> heap \<Rightarrow> 'b hres" where
  "bind_h m f h =
     (case m h of None \<Rightarrow> None
                | Some (Inl e, h') \<Rightarrow> Some (Inl e, h')
                | Some (Inr v, h') \<Rightarrow> f v h')"

primrec for_each_h :: "'i list \<Rightarrow> ('i \<Rightarrow> heap \<Rightarrow> unit hres) \<Rightarrow> heap \<Rightarrow> unit hres" where
  "for_each_h [] body = lift_h (Inr ())"
| "for_each_h (i # rest) body = bind_h (body i) (\<lambda>_. for_each_h rest body)"

text \<open>A new array (\<^verbatim>\<open>np.zeros\<close>, \<^verbatim>\<open>np.array\<close>, the result of an indexing).\<close>

definition h_new :: "array \<Rightarrow> heap \<Rightarrow> addr hres" where
  "h_new v h = Some (Inr (length h), h @ [v])"

definition h_load :: "addr \<Rightarrow> heap \<Rightarrow> array hres" where
  "h_load a h = (if a < length h then Some (Inr (h ! a), h) else Some (Inl TypeError, h))"

definition h_store :: "addr \<Rightarrow> array \<Rightarrow> heap \<Rightarrow> unit hres" where
  "h_store a v h =
     (if a < length h then Some (Inr (), h[a := v]) else Some (Inl TypeError, h))"

definition h_floats :: "addr \<Rightarrow> heap \<Rightarrow> real list hres" where
  "h_floats a =
     bind_h (h_load a) (\<lambda>v. lift_h (case v of Floats xs \<Rightarrow> Inr xs | Tensors ts \<Rightarrow> Inl TypeError))"

definition h_tensors :: "addr \<Rightarrow> heap \<Rightarrow> tensor3 list hres" where
  "h_tensors a =
     bind_h (h_load a) (\<lambda>v. lift_h (case v of Tensors ts \<Rightarrow> Inr ts | Floats xs \<Rightarrow> Inl TypeError))"

text \<open>\<^verbatim>\<open>a[idx]\<close> with an integer array \<^verbatim>\<open>idx\<close>: the entries go to a new array.\<close>

definition array_take :: "array \<Rightarrow> int list \<Rightarrow> error + array" where
  "array_take v idx =
     (case v of Floats xs \<Rightarrow> bind_r (np_take xs idx) (\<lambda>ys. Inr (Floats ys))
              | Tensors ts \<Rightarrow> bind_r (np_take ts idx) (\<lambda>us. Inr (Tensors us)))"

definition h_take :: "addr \<Rightarrow> int list \<Rightarrow> heap \<Rightarrow> addr hres" where
  "h_take a idx = bind_h (h_load a) (\<lambda>v. bind_h (lift_h (array_take v idx)) h_new)"

text \<open>A \<^verbatim>\<open>float64_t[:]\<close> memoryview: the array, and the window of it that is exposed.\<close>

record view =
  v_base :: addr
  v_start :: nat
  v_len :: nat

definition h_view :: "addr \<Rightarrow> heap \<Rightarrow> view hres" where
  "h_view a =
     bind_h (h_floats a) (\<lambda>xs. lift_h (Inr \<lparr>v_base = a, v_start = 0, v_len = length xs\<rparr>))"

definition view_slice :: "view \<Rightarrow> int \<Rightarrow> int \<Rightarrow> view" where
  "view_slice v start stop =
     (let n = int (v_len v);
          a = (if start < 0 then max 0 (start + n) else min start n);
          b = (if stop < 0 then max 0 (stop + n) else min stop n)
      in \<lparr>v_base = v_base v, v_start = v_start v + nat a, v_len = nat (b - a)\<rparr>)"

text \<open>
  The unchecked read \<^verbatim>\<open>v[i]\<close>: the entry of the array at the start of the window
  plus \<open>i\<close>, whether or not \<open>i\<close> is inside the window.
\<close>

definition hv_get :: "view \<Rightarrow> int \<Rightarrow> heap \<Rightarrow> real hres" where
  "hv_get v i =
     bind_h (h_floats (v_base v)) (\<lambda>xs. unchecked_h (mv_get xs (int (v_start v) + i)))"

text \<open>
  The unchecked in-place updates \<^verbatim>\<open>a[p, r, c] += ...\<close> and
  \<^verbatim>\<open>a[p] += ...\<close>: a row \<open>p\<close> outside the array is a write outside the array.
\<close>

definition h_tensor_iadd :: "addr \<Rightarrow> int \<Rightarrow> (tensor3 \<Rightarrow> tensor3) \<Rightarrow> heap \<Rightarrow> unit hres" where
  "h_tensor_iadd a p f =
     bind_h (h_tensors a) (\<lambda>ts.
       bind_h (unchecked_h (mv_iadd ts p f)) (\<lambda>us. h_store a (Tensors us)))"

definition h_float_iadd :: "addr \<Rightarrow> int \<Rightarrow> (real \<Rightarrow> real) \<Rightarrow> heap \<Rightarrow> unit hres" where
  "h_float_iadd a p f =
     bind_h (h_floats a) (\<lambda>xs.
       bind_h (unchecked_h (mv_iadd xs p f)) (\<lambda>ys. h_store a (Floats ys)))"

text \<open>The C locals of the engine, the arrays among them by reference.\<close>

record hlocals =
  h_rsmooth_squared :: real
  h_dm :: double_mesh
  h_x1_sorted :: view
  h_y1_sorted :: view
  h_z1_sorted :: view
  h_x2_sorted :: view
  h_y2_sorted :: view
  h_z2_sorted :: view
  h_w2_sorted :: view
  h_inertia_tensor :: addr
  h_sum_weights :: addr
  h_cell1_indices :: "int list"
  h_cell2_indices :: "int list"
  h_num_x2_covering_steps :: int
  h_num_y2_covering_steps :: int
  h_num_z2_covering_steps :: int
  h_num_x2_per_x1 :: int
  h_num_y2_per_y1 :: int
  h_num_z2_per_z1 :: int

text \<open>Lines 208 to 228: the ten \<^verbatim>\<open>+=\<close> statements, on the two output arrays.\<close>

definition accumulate_h ::
  "hlocals \<Rightarrow> int \<Rightarrow> real \<Rightarrow> real \<Rightarrow> real \<Rightarrow> real \<Rightarrow> heap \<Rightarrow> unit hres" where
  "accumulate_h L p dx dy dz w2 =
     (let xx = dx * dx * w2; yy = dy * dy * w2; zz = dz * dz * w2;
          xy = dx * dy * w2; xz = dx * dz * w2; yz = dy * dz * w2;
          T = h_inertia_tensor L
      in bind_h (h_tensor_iadd T p (\<lambda>t. t\<lparr>t00 := t00 t + xx\<rparr>)) (\<lambda>_.
         bind_h (h_tensor_iadd T p (\<lambda>t. t\<lparr>t11 := t11 t + yy\<rparr>)) (\<lambda>_.
         bind_h (h_tensor_iadd T p (\<lambda>t. t\<lparr>t22 := t22 t + zz\<rparr>)) (\<lambda>_.
         bind_h (h_tensor_iadd T p (\<lambda>t. t\<lparr>t01 := t01 t + xy\<rparr>)) (\<lambda>_.
         bind_h (h_tensor_iadd T p (\<lambda>t. t\<lparr>t10 := t10 t + xy\<rparr>)) (\<lambda>_.
         bind_h (h_tensor_iadd T p (\<lambda>t. t\<lparr>t02 := t02 t + xz\<rparr>)) (\<lambda>_.
         bind_h (h_tensor_iadd T p (\<lambda>t. t\<lparr>t20 := t20 t + xz\<rparr>)) (\<lambda>_.
         bind_h (h_tensor_iadd T p (\<lambda>t. t\<lparr>t12 := t12 t + yz\<rparr>)) (\<lambda>_.
         bind_h (h_tensor_iadd T p (\<lambda>t. t\<lparr>t21 := t21 t + yz\<rparr>)) (\<lambda>_.
           h_float_iadd (h_sum_weights L) p (\<lambda>w. w + w2)))))))))))"

text \<open>Lines 199 to 228, 186 to 228 and 173 to 228: the loops over the points of two cells.\<close>

definition pair_step_h ::
  "hlocals \<Rightarrow> int \<Rightarrow> real \<Rightarrow> real \<Rightarrow> real \<Rightarrow> view \<Rightarrow> view \<Rightarrow> view \<Rightarrow> view
     \<Rightarrow> int \<Rightarrow> heap \<Rightarrow> unit hres" where
  "pair_step_h L p x1tmp y1tmp z1tmp x_icell2 y_icell2 z_icell2 w_icell2 j =
     bind_h (hv_get x_icell2 j) (\<lambda>x2.
     bind_h (hv_get y_icell2 j) (\<lambda>y2.
     bind_h (hv_get z_icell2 j) (\<lambda>z2.
       let dx = x1tmp - x2; dy = y1tmp - y2; dz = z1tmp - z2;
           dsq = dx * dx + dy * dy + dz * dz
       in bind_h (hv_get w_icell2 j) (\<lambda>w2.
            if dsq < h_rsmooth_squared L then accumulate_h L p dx dy dz w2
            else lift_h (Inr ())))))"

definition point_step_h ::
  "hlocals \<Rightarrow> int \<Rightarrow> view \<Rightarrow> view \<Rightarrow> view \<Rightarrow> real \<Rightarrow> real \<Rightarrow> real
     \<Rightarrow> view \<Rightarrow> view \<Rightarrow> view \<Rightarrow> view \<Rightarrow> int \<Rightarrow> int \<Rightarrow> heap \<Rightarrow> unit hres" where
  "point_step_h L ifirst1 x_icell1 y_icell1 z_icell1 x2shift y2shift z2shift
       x_icell2 y_icell2 z_icell2 w_icell2 Nj i =
     bind_h (hv_get x_icell1 i) (\<lambda>x1.
     bind_h (hv_get y_icell1 i) (\<lambda>y1.
     bind_h (hv_get z_icell1 i) (\<lambda>z1.
       let x1tmp = x1 - x2shift; y1tmp = y1 - y2shift; z1tmp = z1 - z2shift
       in for_each_h (py_range 0 Nj)
            (pair_step_h L (ifirst1 + i) x1tmp y1tmp z1tmp
               x_icell2 y_icell2 z_icell2 w_icell2))))"

definition cell_pair_h ::
  "hlocals \<Rightarrow> int \<Rightarrow> int \<Rightarrow> view \<Rightarrow> view \<Rightarrow> view
     \<Rightarrow> int \<Rightarrow> int \<Rightarrow> int \<Rightarrow> real \<Rightarrow> real \<Rightarrow> real \<Rightarrow> heap \<Rightarrow> unit hres" where
  "cell_pair_h L ifirst1 Ni x_icell1 y_icell1 z_icell1 ix2 iy2 iz2 x2shift y2shift z2shift =
     (let num_y2divs = num_ydivs (mesh2 (h_dm L)); num_z2divs = num_zdivs (mesh2 (h_dm L));
          icell2 = ix2 * (num_y2divs * num_z2divs) + iy2 * num_z2divs + iz2
      in bind_h (unchecked_h (mv_get (h_cell2_indices L) icell2)) (\<lambda>ifirst2.
         bind_h (unchecked_h (mv_get (h_cell2_indices L) (icell2 + 1))) (\<lambda>ilast2.
           let x_icell2 = view_slice (h_x2_sorted L) ifirst2 ilast2;
               y_icell2 = view_slice (h_y2_sorted L) ifirst2 ilast2;
               z_icell2 = view_slice (h_z2_sorted L) ifirst2 ilast2;
               w_icell2 = view_slice (h_w2_sorted L) ifirst2 ilast2;
               Nj = ilast2 - ifirst2
           in if Nj > 0
              then for_each_h (py_range 0 Ni)
                     (point_step_h L ifirst1 x_icell1 y_icell1 z_icell1
                        x2shift y2shift z2shift x_icell2 y_icell2 z_icell2 w_icell2 Nj)
              else lift_h (Inr ()))))"

text \<open>Lines 163 to 228, 153 to 228 and 143 to 228: the three loops over the window.\<close>

definition z_step_h ::
  "hlocals \<Rightarrow> int \<Rightarrow> int \<Rightarrow> view \<Rightarrow> view \<Rightarrow> view
     \<Rightarrow> int \<Rightarrow> real \<Rightarrow> int \<Rightarrow> real \<Rightarrow> int \<Rightarrow> heap \<Rightarrow> unit hres" where
  "z_step_h L ifirst1 Ni x_icell1 y_icell1 z_icell1 ix2 x2shift iy2 y2shift nonPBC_iz2 =
     (let num_z2divs = num_zdivs (mesh2 (h_dm L));
          z2shift = shift_of (PBCs (h_dm L)) (zperiod (h_dm L)) num_z2divs nonPBC_iz2
      in bind_h (lift_h (py_mod nonPBC_iz2 num_z2divs)) (\<lambda>iz2.
           cell_pair_h L ifirst1 Ni x_icell1 y_icell1 z_icell1 ix2 iy2 iz2
             x2shift y2shift z2shift))"

definition y_step_h ::
  "hlocals \<Rightarrow> int \<Rightarrow> int \<Rightarrow> view \<Rightarrow> view \<Rightarrow> view
     \<Rightarrow> int \<Rightarrow> int \<Rightarrow> int \<Rightarrow> real \<Rightarrow> int \<Rightarrow> heap \<Rightarrow> unit hres" where
  "y_step_h L ifirst1 Ni x_icell1 y_icell1 z_icell1 leftmost_iz2 rightmost_iz2 ix2 x2shift
       nonPBC_iy2 =
     (let num_y2divs = num_ydivs (mesh2 (h_dm L));
          y2shift = shift_of (PBCs (h_dm L)) (yperiod (h_dm L)) num_y2divs nonPBC_iy2
      in bind_h (lift_h (py_mod nonPBC_iy2 num_y2divs)) (\<lambda>iy2.
           for_each_h (py_range leftmost_iz2 rightmost_iz2)
             (z_step_h L ifirst1 Ni x_icell1 y_icell1 z_icell1 ix2 x2shift iy2 y2shift)))"

definition x_step_h ::
  "hlocals \<Rightarrow> int \<Rightarrow> int \<Rightarrow> view \<Rightarrow> view \<Rightarrow> view
     \<Rightarrow> int \<Rightarrow> int \<Rightarrow> int \<Rightarrow> int \<Rightarrow> int \<Rightarrow> heap \<Rightarrow> unit hres" where
  "x_step_h L ifirst1 Ni x_icell1 y_icell1 z_icell1 leftmost_iy2 rightmost_iy2
       leftmost_iz2 rightmost_iz2 nonPBC_ix2 =
     (let num_x2divs = num_xdivs (mesh2 (h_dm L));
          x2shift = shift_of (PBCs (h_dm L)) (xperiod (h_dm L)) num_x2divs nonPBC_ix2
      in bind_h (lift_h (py_mod nonPBC_ix2 num_x2divs)) (\<lambda>ix2.
           for_each_h (py_range leftmost_iy2 rightmost_iy2)
             (y_step_h L ifirst1 Ni x_icell1 y_icell1 z_icell1 leftmost_iz2 rightmost_iz2
                ix2 x2shift)))"

text \<open>Lines 122 to 228: the body of the main loop.\<close>

definition cell1_step_h :: "hlocals \<Rightarrow> int \<Rightarrow> heap \<Rightarrow> unit hres" where
  "cell1_step_h L icell1 =
     bind_h (unchecked_h (mv_get (h_cell1_indices L) icell1)) (\<lambda>ifirst1.
     bind_h (unchecked_h (mv_get (h_cell1_indices L) (icell1 + 1))) (\<lambda>ilast1.
       let x_icell1 = view_slice (h_x1_sorted L) ifirst1 ilast1;
           y_icell1 = view_slice (h_y1_sorted L) ifirst1 ilast1;
           z_icell1 = view_slice (h_z1_sorted L) ifirst1 ilast1;
           Ni = ilast1 - ifirst1
       in if Ni > 0
          then
            let num_y1divs = num_ydivs (mesh1 (h_dm L)); num_z1divs = num_zdivs (mesh1 (h_dm L))
            in bind_h (lift_h (py_floordiv icell1 (num_y1divs * num_z1divs))) (\<lambda>ix1.
               bind_h (lift_h (py_floordiv (icell1 - ix1 * num_y1divs * num_z1divs) num_z1divs))
                 (\<lambda>iy1.
                 let iz1 = icell1 - (ix1 * num_y1divs * num_z1divs) - (iy1 * num_z1divs);
                     leftmost_ix2 = ix1 * h_num_x2_per_x1 L - h_num_x2_covering_steps L;
                     leftmost_iy2 = iy1 * h_num_y2_per_y1 L - h_num_y2_covering_steps L;
                     leftmost_iz2 = iz1 * h_num_z2_per_z1 L - h_num_z2_covering_steps L;
                     rightmost_ix2 = (ix1 + 1) * h_num_x2_per_x1 L + h_num_x2_covering_steps L;
                     rightmost_iy2 = (iy1 + 1) * h_num_y2_per_y1 L + h_num_y2_covering_steps L;
                     rightmost_iz2 = (iz1 + 1) * h_num_z2_per_z1 L + h_num_z2_covering_steps L
                 in for_each_h (py_range leftmost_ix2 rightmost_ix2)
                      (x_step_h L ifirst1 Ni x_icell1 y_icell1 z_icell1
                         leftmost_iy2 rightmost_iy2 leftmost_iz2 rightmost_iz2)))
          else lift_h (Inr ())))"

text \<open>
  Lines 49 to 118: the set-up. Each sorted copy is the new array of an indexing, seen
  through a memoryview; the two output arrays are new arrays of zeros (lines 76 and 118).
\<close>

definition sorted_copy :: "addr \<Rightarrow> int list \<Rightarrow> heap \<Rightarrow> view hres" where
  "sorted_copy a idx = bind_h (h_take a idx) h_view"

definition engine_locals_h ::
  "double_mesh \<Rightarrow> addr \<Rightarrow> addr \<Rightarrow> addr \<Rightarrow> addr \<Rightarrow> addr \<Rightarrow> addr \<Rightarrow> addr \<Rightarrow> real
     \<Rightarrow> heap \<Rightarrow> hlocals hres" where
  "engine_locals_h double_mesh x1in y1in z1in x2in y2in z2in weights2in rsmooth =
     bind_h (sorted_copy x1in (idx_sorted (mesh1 double_mesh))) (\<lambda>x1s.
     bind_h (sorted_copy y1in (idx_sorted (mesh1 double_mesh))) (\<lambda>y1s.
     bind_h (sorted_copy z1in (idx_sorted (mesh1 double_mesh))) (\<lambda>z1s.
     bind_h (sorted_copy x2in (idx_sorted (mesh2 double_mesh))) (\<lambda>x2s.
     bind_h (sorted_copy y2in (idx_sorted (mesh2 double_mesh))) (\<lambda>y2s.
     bind_h (sorted_copy z2in (idx_sorted (mesh2 double_mesh))) (\<lambda>z2s.
     bind_h (sorted_copy weights2in (idx_sorted (mesh2 double_mesh))) (\<lambda>w2s.
     bind_h (h_new (Tensors (replicate (v_len x1s) tensor_zero))) (\<lambda>inertia_tensor.
     bind_h (lift_h (covering_steps (search_xlength double_mesh) (xcell_size (mesh2 double_mesh))))
       (\<lambda>cx.
     bind_h (lift_h (covering_steps (search_ylength double_mesh) (ycell_size (mesh2 double_mesh))))
       (\<lambda>cy.
     bind_h (lift_h (covering_steps (search_zlength double_mesh) (zcell_size (mesh2 double_mesh))))
       (\<lambda>cz.
     bind_h (lift_h (py_floordiv (num_xdivs (mesh2 double_mesh)) (num_xdivs (mesh1 double_mesh))))
       (\<lambda>px.
     bind_h (lift_h (py_floordiv (num_ydivs (mesh2 double_mesh)) (num_ydivs (mesh1 double_mesh))))
       (\<lambda>py.
     bind_h (lift_h (py_floordiv (num_zdivs (mesh2 double_mesh)) (num_zdivs (mesh1 double_mesh))))
       (\<lambda>pz.
     bind_h (h_new (Floats (replicate (v_len x1s) 0))) (\<lambda>sum_weights.
       lift_h (Inr \<lparr>h_rsmooth_squared = rsmooth * rsmooth, h_dm = double_mesh,
            h_x1_sorted = x1s, h_y1_sorted = y1s, h_z1_sorted = z1s,
            h_x2_sorted = x2s, h_y2_sorted = y2s, h_z2_sorted = z2s, h_w2_sorted = w2s,
            h_inertia_tensor = inertia_tensor, h_sum_weights = sum_weights,
            h_cell1_indices = cell_id_indices (mesh1 double_mesh),
            h_cell2_indices = cell_id_indices (mesh2 double_mesh),
            h_num_x2_covering_steps = cx, h_num_y2_covering_steps = cy,
            h_num_z2_covering_steps = cz,
            h_num_x2_per_x1 = px, h_num_y2_per_y1 = py, h_num_z2_per_z1 = pz\<rparr>))))))))))))))))"

text \<open>
  Lines 233 to 237: \<^verbatim>\<open>np.array\<close> copies each output array, and the indexing by
  the inverse permutation makes the two arrays that are returned.
\<close>

definition unsort_h :: "int list \<Rightarrow> hlocals \<Rightarrow> heap \<Rightarrow> (addr \<times> addr) hres" where
  "unsort_h idx L =
     bind_h (bind_h (h_load (h_inertia_tensor L)) h_new) (\<lambda>sorted_tensor.
     bind_h (bind_h (h_load (h_sum_weights L)) h_new) (\<lambda>sum_weights_array.
       let idx_unsorted = unsorting_indices idx
       in bind_h (h_take sum_weights_array idx_unsorted) (\<lambda>sum_weights_array.
          bind_h (h_take sorted_tensor idx_unsorted) (\<lambda>tensor.
            lift_h (Inr (tensor, sum_weights_array))))))"

definition inertia_tensor_per_object_engine_h ::
  "double_mesh \<Rightarrow> addr \<Rightarrow> addr \<Rightarrow> addr \<Rightarrow> addr \<Rightarrow> addr \<Rightarrow> addr \<Rightarrow> addr \<Rightarrow> real \<Rightarrow> int \<times> int
     \<Rightarrow> heap \<Rightarrow> (addr \<times> addr) hres" where
  "inertia_tensor_per_object_engine_h double_mesh x1in y1in z1in x2in y2in z2in weights2in
       rsmooth cell1_tuple =
     bind_h (engine_locals_h double_mesh x1in y1in z1in x2in y2in z2in weights2in rsmooth) (\<lambda>L.
     bind_h (for_each_h (py_range (fst cell1_tuple) (snd cell1_tuple)) (cell1_step_h L)) (\<lambda>_.
       unsort_h (idx_sorted (mesh1 double_mesh)) L))"

text \<open>
  A computation keeps the arrays below the address \<open>B\<close>: when its run on a store that
  holds them has an outcome, the store it leaves holds them unchanged; and its result, if
  any, satisfies \<open>Q\<close>.
\<close>

definition frame :: "addr \<Rightarrow> ('a \<Rightarrow> bool) \<Rightarrow> (heap \<Rightarrow> 'a hres) \<Rightarrow> bool" where
  "frame B Q m \<longleftrightarrow>
     (\<forall>h r h'. B \<le> length h \<longrightarrow> m h = Some (r, h') \<longrightarrow>
        B \<le> length h' \<and> take B h' = take B h \<and> (\<forall>v. r = Inr v \<longrightarrow> Q v))"

subsection \<open>Notions used in the statements\<close>

definition symmetric3 :: "tensor3 \<Rightarrow> bool" where
  "symmetric3 t \<longleftrightarrow> t01 t = t10 t \<and> t02 t = t20 t \<and> t12 t = t21 t"

definition tensor_add :: "tensor3 \<Rightarrow> tensor3 \<Rightarrow> tensor3" where
  "tensor_add a b = \<lparr>t00 = t00 a + t00 b, t01 = t01 a + t01 b, t02 = t02 a + t02 b,
     t10 = t10 a + t10 b, t11 = t11 a + t11 b, t12 = t12 a + t12 b,
     t20 = t20 a + t20 b, t21 = t21 a + t21 b, t22 = t22 a + t22 b\<rparr>"

text \<open>The weighted second moments of one separation vector: what one pair adds.\<close>

definition outer3 :: "real \<Rightarrow> real \<Rightarrow> real \<Rightarrow> real \<Rightarrow> tensor3" where
  "outer3 w dx dy dz = \<lparr>t00 = dx * dx * w, t01 = dx * dy * w, t02 = dx * dz * w,
     t10 = dx * dy * w, t11 = dy * dy * w, t12 = dy * dz * w,
     t20 = dx * dz * w, t21 = dy * dz * w, t22 = dz * dz * w\<rparr>"

text \<open>
  A relation between the output arrays of two runs that every pair of corresponding
  iterations of the innermost loop keeps, when the runs differ in the squared radius only
  and the weights of sample 2 lie in \<open>ok_weights\<close>.
\<close>

definition pair_rel :: "(accum \<Rightarrow> accum \<Rightarrow> bool) \<Rightarrow> real \<Rightarrow> real \<Rightarrow> real set \<Rightarrow> bool" where
  "pair_rel R rsq1 rsq2 ok_weights \<longleftrightarrow>
     (\<forall>p x y z xs ys zs ws j s1 s2 s1' s2'. set ws \<subseteq> ok_weights \<longrightarrow> R s1 s2
        \<longrightarrow> pair_step rsq1 p x y z xs ys zs ws j s1 = Inr s1'
        \<longrightarrow> pair_step rsq2 p x y z xs ys zs ws j s2 = Inr s2' \<longrightarrow> R s1' s2')"

text \<open>The weight sums of one run are, entry by entry, at most those of another.\<close>

definition weight_le :: "accum \<Rightarrow> accum \<Rightarrow> bool" where
  "weight_le s1 s2 \<longleftrightarrow>
     length (snd s1) = length (snd s2) \<and> (\<forall>p < length (snd s1). snd s1 ! p \<le> snd s2 ! p)"

text \<open>Entry-wise sum of the output arrays of two runs.\<close>

definition acc_add :: "accum \<Rightarrow> accum \<Rightarrow> accum" where
  "acc_add s d = (map2 tensor_add (fst s) (fst d), map2 (+) (snd s) (snd d))"

definition shape :: "nat \<Rightarrow> accum \<Rightarrow> bool" where
  "shape n s \<longleftrightarrow> length (fst s) = n \<and> length (snd s) = n"

text \<open>
  A relation between two states of the output arrays that the ten updates of a pair carry
  from one state to the other: the second run succeeds where the first does.
\<close>

definition acc_sim :: "(accum \<Rightarrow> accum \<Rightarrow> bool) \<Rightarrow> bool" where
  "acc_sim R \<longleftrightarrow>
     (\<forall>p dx dy dz w s1 s2 s1'. R s1 s2 \<longrightarrow> accumulate p dx dy dz w s1 = Inr s1'
        \<longrightarrow> (\<exists>s2'. accumulate p dx dy dz w s2 = Inr s2' \<and> R s1' s2'))"

text \<open>The second state is the first one with the arrays \<open>d\<close> added entry by entry.\<close>

definition translated :: "nat \<Rightarrow> accum \<Rightarrow> accum \<Rightarrow> accum \<Rightarrow> bool" where
  "translated n d s1 s2 \<longleftrightarrow> shape n s1 \<and> s2 = acc_add d s1"

subsection \<open>The mesh data model and the pairwise sum of the spec\<close>

text \<open>
  The ten numbers the engine keeps for the primary point \<open>p\<close>: slots 0 to 8 are the entries
  of its tensor, row by row, and slot 9 is its weight sum.
\<close>

definition tensor_slot :: "tensor3 \<Rightarrow> nat \<Rightarrow> real" where
  "tensor_slot t q =
     (if q = 0 then t00 t else if q = 1 then t01 t else if q = 2 then t02 t
      else if q = 3 then t10 t else if q = 4 then t11 t else if q = 5 then t12 t
      else if q = 6 then t20 t else if q = 7 then t21 t else t22 t)"

definition slot :: "accum \<Rightarrow> nat \<Rightarrow> nat \<Rightarrow> real" where
  "slot s p q = (if q < 9 then tensor_slot (fst s ! p) q else snd s ! p)"

text \<open>What one pair of weight \<open>w\<close> and separation \<open>(dx, dy, dz)\<close> adds to slot \<open>q\<close>.\<close>

definition pair_slot :: "real \<Rightarrow> real \<Rightarrow> real \<Rightarrow> real \<Rightarrow> nat \<Rightarrow> real" where
  "pair_slot w dx dy dz q = (if q < 9 then tensor_slot (outer3 w dx dy dz) q else w)"

text \<open>The state \<open>s'\<close> is the state \<open>s\<close> with \<open>f p q\<close> added to slot \<open>q\<close> of every point \<open>p\<close>.\<close>

definition adds :: "nat \<Rightarrow> (nat \<Rightarrow> nat \<Rightarrow> real) \<Rightarrow> accum \<Rightarrow> accum \<Rightarrow> bool" where
  "adds n f s s' \<longleftrightarrow> shape n s' \<and> (\<forall>p < n. \<forall>q. slot s' p q = slot s p q + f p q)"

text \<open>
  What the pair of the sorted points \<open>p\<close> of sample 1 and \<open>j\<close> of sample 2 adds to slot \<open>q\<close>
  of \<open>p\<close> when the cell of \<open>j\<close> is visited with the shifts \<open>sx\<close>, \<open>sy\<close>, \<open>sz\<close>.
\<close>

definition pair_term :: "locals \<Rightarrow> nat \<Rightarrow> nat \<Rightarrow> real \<Rightarrow> real \<Rightarrow> real \<Rightarrow> nat \<Rightarrow> real" where
  "pair_term L p j sx sy sz q =
     (let dx = x1_sorted L ! p - sx - x2_sorted L ! j;
          dy = y1_sorted L ! p - sy - y2_sorted L ! j;
          dz = z1_sorted L ! p - sz - z2_sorted L ! j
      in if dx * dx + dy * dy + dz * dz < rsmooth_squared L
         then pair_slot (w2_sorted L ! j) dx dy dz q else 0)"

text \<open>What the set-up guarantees about the locals when the meshes are well formed.\<close>

definition locals_ok :: "locals \<Rightarrow> bool" where
  "locals_ok L \<longleftrightarrow>
     length (y1_sorted L) = length (x1_sorted L) \<and> length (z1_sorted L) = length (x1_sorted L)
     \<and> length (y2_sorted L) = length (x2_sorted L) \<and> length (z2_sorted L) = length (x2_sorted L)
     \<and> length (w2_sorted L) = length (x2_sorted L)
     \<and> 0 < num_xdivs (mesh2 (dm L)) \<and> 0 < num_ydivs (mesh2 (dm L))
     \<and> 0 < num_zdivs (mesh2 (dm L))
     \<and> int (length (cell2_indices L))
         = num_xdivs (mesh2 (dm L)) * num_ydivs (mesh2 (dm L)) * num_zdivs (mesh2 (dm L)) + 1
     \<and> (\<forall>v \<in> set (cell2_indices L). 0 \<le> v \<and> v \<le> int (length (x2_sorted L)))
     \<and> 0 < num_ydivs (mesh1 (dm L)) \<and> 0 < num_zdivs (mesh1 (dm L))
     \<and> (\<forall>v \<in> set (cell1_indices L). 0 \<le> v \<and> v \<le> int (length (x1_sorted L)))"

text \<open>The id of the cell of mesh 2 with the coordinates \<open>(ix2, iy2, iz2)\<close> (line 173).\<close>

definition cell2_id :: "locals \<Rightarrow> int \<Rightarrow> int \<Rightarrow> int \<Rightarrow> int" where
  "cell2_id L ix2 iy2 iz2 =
     ix2 * (num_ydivs (mesh2 (dm L)) * num_zdivs (mesh2 (dm L)))
       + iy2 * num_zdivs (mesh2 (dm L)) + iz2"

text \<open>What visiting the cell \<open>c2\<close> of mesh 2 with given shifts adds to slot \<open>q\<close> of \<open>p\<close>.\<close>

definition cell2_term :: "locals \<Rightarrow> int \<Rightarrow> real \<Rightarrow> real \<Rightarrow> real \<Rightarrow> nat \<Rightarrow> nat \<Rightarrow> real" where
  "cell2_term L c2 sx sy sz p q =
     (\<Sum>j \<in> {cell2_indices L ! nat c2..<cell2_indices L ! nat (c2 + 1)}.
        pair_term L p (nat j) sx sy sz q)"

text \<open>The shifts the engine applies at the unwrapped cell coordinates of mesh 2.\<close>

definition x_shift :: "locals \<Rightarrow> int \<Rightarrow> real" where
  "x_shift L k = shift_of (PBCs (dm L)) (xperiod (dm L)) (num_xdivs (mesh2 (dm L))) k"

definition y_shift :: "locals \<Rightarrow> int \<Rightarrow> real" where
  "y_shift L k = shift_of (PBCs (dm L)) (yperiod (dm L)) (num_ydivs (mesh2 (dm L))) k"

definition z_shift :: "locals \<Rightarrow> int \<Rightarrow> real" where
  "z_shift L k = shift_of (PBCs (dm L)) (zperiod (dm L)) (num_zdivs (mesh2 (dm L))) k"

text \<open>
  What visiting the cell of mesh 2 at the unwrapped coordinates \<open>(kx, ky, kz)\<close> adds to slot
  \<open>q\<close> of the sorted point \<open>p\<close>.
\<close>

definition visit_term :: "locals \<Rightarrow> int \<Rightarrow> int \<Rightarrow> int \<Rightarrow> nat \<Rightarrow> nat \<Rightarrow> real" where
  "visit_term L kx ky kz p q =
     cell2_term L
       (cell2_id L (kx mod num_xdivs (mesh2 (dm L))) (ky mod num_ydivs (mesh2 (dm L)))
          (kz mod num_zdivs (mesh2 (dm L))))
       (x_shift L kx) (y_shift L ky) (z_shift L kz) p q"

text \<open>The window of the cell \<open>(ix1, iy1, iz1)\<close> of mesh 1, axis by axis (lines 135 to 141).\<close>

definition x_window :: "locals \<Rightarrow> int \<Rightarrow> int set" where
  "x_window L ix1 = {ix1 * num_x2_per_x1 L - num_x2_covering_steps L
                       ..<(ix1 + 1) * num_x2_per_x1 L + num_x2_covering_steps L}"

definition y_window :: "locals \<Rightarrow> int \<Rightarrow> int set" where
  "y_window L iy1 = {iy1 * num_y2_per_y1 L - num_y2_covering_steps L
                       ..<(iy1 + 1) * num_y2_per_y1 L + num_y2_covering_steps L}"

definition z_window :: "locals \<Rightarrow> int \<Rightarrow> int set" where
  "z_window L iz1 = {iz1 * num_z2_per_z1 L - num_z2_covering_steps L
                       ..<(iz1 + 1) * num_z2_per_z1 L + num_z2_covering_steps L}"

definition window_term :: "locals \<Rightarrow> int \<Rightarrow> int \<Rightarrow> int \<Rightarrow> nat \<Rightarrow> nat \<Rightarrow> real" where
  "window_term L ix1 iy1 iz1 p q =
     (\<Sum>kx \<in> x_window L ix1. \<Sum>ky \<in> y_window L iy1. \<Sum>kz \<in> z_window L iz1.
        visit_term L kx ky kz p q)"

text \<open>The coordinates of the cell \<open>icell1\<close> of mesh 1 (lines 131 to 133).\<close>

definition cell1_x :: "locals \<Rightarrow> int \<Rightarrow> int" where
  "cell1_x L c = c div (num_ydivs (mesh1 (dm L)) * num_zdivs (mesh1 (dm L)))"

definition cell1_y :: "locals \<Rightarrow> int \<Rightarrow> int" where
  "cell1_y L c =
     (c - cell1_x L c * num_ydivs (mesh1 (dm L)) * num_zdivs (mesh1 (dm L)))
       div num_zdivs (mesh1 (dm L))"

definition cell1_z :: "locals \<Rightarrow> int \<Rightarrow> int" where
  "cell1_z L c =
     c - cell1_x L c * num_ydivs (mesh1 (dm L)) * num_zdivs (mesh1 (dm L))
       - cell1_y L c * num_zdivs (mesh1 (dm L))"

text \<open>What the iteration of the main loop for the cell \<open>c\<close> of mesh 1 adds.\<close>

definition cell1_term :: "locals \<Rightarrow> int \<Rightarrow> nat \<Rightarrow> nat \<Rightarrow> real" where
  "cell1_term L c p q =
     (if cell1_indices L ! nat c \<le> int p \<and> int p < cell1_indices L ! nat (c + 1)
      then window_term L (cell1_x L c) (cell1_y L c) (cell1_z L c) p q else 0)"

text \<open>The cell coordinate, along one axis, of a point of a mesh with the given cell size.\<close>

definition cell_coord :: "real \<Rightarrow> real \<Rightarrow> int" where
  "cell_coord cell_size x = \<lfloor>x / cell_size\<rfloor>"

text \<open>
  The data model of the spec for one mesh over the points \<open>(xs, ys, zs)\<close>: positive
  dimensions and cell sizes, \<open>idx_sorted\<close> a permutation of the point indices,
  \<open>cell_id_indices\<close> a non-decreasing array of \<open>ncells + 1\<close> positions, and every point, at
  its sorted position, inside the range of the cell that contains it.
\<close>

definition mesh_ok :: "mesh \<Rightarrow> real list \<Rightarrow> real list \<Rightarrow> real list \<Rightarrow> bool" where
  "mesh_ok m xs ys zs \<longleftrightarrow>
     0 < num_xdivs m \<and> 0 < num_ydivs m \<and> 0 < num_zdivs m
     \<and> 0 < xcell_size m \<and> 0 < ycell_size m \<and> 0 < zcell_size m
     \<and> ncells m = num_xdivs m * num_ydivs m * num_zdivs m
     \<and> length ys = length xs \<and> length zs = length xs
     \<and> sort (idx_sorted m) = [0..int (length xs) - 1]
     \<and> int (length (cell_id_indices m)) = ncells m + 1
     \<and> sorted (cell_id_indices m)
     \<and> (\<forall>v \<in> set (cell_id_indices m). 0 \<le> v \<and> v \<le> int (length xs))
     \<and> (\<forall>p \<in> {0..<length xs}.
           let i = nat (idx_sorted m ! p);
               cx = cell_coord (xcell_size m) (xs ! i);
               cy = cell_coord (ycell_size m) (ys ! i);
               cz = cell_coord (zcell_size m) (zs ! i);
               c = cx * (num_ydivs m * num_zdivs m) + cy * num_zdivs m + cz
           in 0 \<le> cx \<and> cx < num_xdivs m \<and> 0 \<le> cy \<and> cy < num_ydivs m
              \<and> 0 \<le> cz \<and> cz < num_zdivs m
              \<and> cell_id_indices m ! nat c \<le> int p \<and> int p < cell_id_indices m ! nat (c + 1))"

text \<open>
  The data model of the spec for one axis of the double mesh: the number of cells of mesh 2
  per cell of mesh 1 is integral, the search length covers the smoothing radius, the
  window of a cell of mesh 1 is no wider than the grid of mesh 2, and under periodicity the
  period is the extent of the grid.
\<close>

definition axis_ok :: "bool \<Rightarrow> real \<Rightarrow> real \<Rightarrow> int \<Rightarrow> int \<Rightarrow> real \<Rightarrow> real \<Rightarrow> real \<Rightarrow> bool" where
  "axis_ok pbcs period search_length num1 num2 size1 size2 rsmooth \<longleftrightarrow>
     num2 = (num2 div num1) * num1
     \<and> size1 = real_of_int (num2 div num1) * size2
     \<and> \<bar>rsmooth\<bar> \<le> search_length
     \<and> num2 div num1 + 2 * \<lceil>search_length / size2\<rceil> \<le> num2
     \<and> (if pbcs then period = real_of_int num2 * size2 else True)"

definition double_mesh_ok ::
  "double_mesh \<Rightarrow> real list \<Rightarrow> real list \<Rightarrow> real list \<Rightarrow> real list \<Rightarrow> real list \<Rightarrow> real list
     \<Rightarrow> real list \<Rightarrow> real \<Rightarrow> bool" where
  "double_mesh_ok double_mesh x1in y1in z1in x2in y2in z2in weights2in rsmooth \<longleftrightarrow>
     mesh_ok (mesh1 double_mesh) x1in y1in z1in
     \<and> mesh_ok (mesh2 double_mesh) x2in y2in z2in
     \<and> length weights2in = length x2in
     \<and> axis_ok (PBCs double_mesh) (xperiod double_mesh) (search_xlength double_mesh)
         (num_xdivs (mesh1 double_mesh)) (num_xdivs (mesh2 double_mesh))
         (xcell_size (mesh1 double_mesh)) (xcell_size (mesh2 double_mesh)) rsmooth
     \<and> axis_ok (PBCs double_mesh) (yperiod double_mesh) (search_ylength double_mesh)
         (num_ydivs (mesh1 double_mesh)) (num_ydivs (mesh2 double_mesh))
         (ycell_size (mesh1 double_mesh)) (ycell_size (mesh2 double_mesh)) rsmooth
     \<and> axis_ok (PBCs double_mesh) (zperiod double_mesh) (search_zlength double_mesh)
         (num_zdivs (mesh1 double_mesh)) (num_zdivs (mesh2 double_mesh))
         (zcell_size (mesh1 double_mesh)) (zcell_size (mesh2 double_mesh)) rsmooth"

text \<open>
  The shifts of the periodic images of a secondary point along one axis: the point itself
  and, under periodicity, its two neighbouring images.
\<close>

definition image_shifts :: "bool \<Rightarrow> real \<Rightarrow> real list" where
  "image_shifts pbcs period = (if pbcs then [- period, 0, period] else [0])"

text \<open>
  The spec's words, point by point: for the primary point \<open>i\<close>, every secondary point \<open>j\<close>
  and every one of its images whose squared separation from \<open>i\<close> is below the squared
  smoothing radius adds its weighted second moments to the tensor and its weight to the
  weight sum. Points are taken in the caller's order; no mesh is involved.
\<close>

definition image_step ::
  "real \<Rightarrow> real \<Rightarrow> real \<Rightarrow> real \<Rightarrow> real \<Rightarrow> real \<Rightarrow> real \<Rightarrow> real \<Rightarrow> real \<Rightarrow> real \<Rightarrow> real
     \<Rightarrow> tensor3 \<times> real \<Rightarrow> tensor3 \<times> real" where
  "image_step rsq x1 y1 z1 x2 y2 z2 w2 sx sy sz acc =
     (let dx = x1 - sx - x2; dy = y1 - sy - y2; dz = z1 - sz - z2
      in if dx * dx + dy * dy + dz * dz < rsq
         then (tensor_add (fst acc) (outer3 w2 dx dy dz), snd acc + w2) else acc)"

definition brute_force_point ::
  "double_mesh \<Rightarrow> real list \<Rightarrow> real list \<Rightarrow> real list \<Rightarrow> real list \<Rightarrow> real list \<Rightarrow> real list
     \<Rightarrow> real list \<Rightarrow> real \<Rightarrow> nat \<Rightarrow> tensor3 \<times> real" where
  "brute_force_point double_mesh x1in y1in z1in x2in y2in z2in weights2in rsmooth i =
     fold (\<lambda>j. fold (\<lambda>sx. fold (\<lambda>sy. fold (\<lambda>sz.
             image_step (rsmooth * rsmooth) (x1in ! i) (y1in ! i) (z1in ! i)
               (x2in ! j) (y2in ! j) (z2in ! j) (weights2in ! j) sx sy sz)
           (image_shifts (PBCs double_mesh) (zperiod double_mesh)))
         (image_shifts (PBCs double_mesh) (yperiod double_mesh)))
       (image_shifts (PBCs double_mesh) (xperiod double_mesh)))
     [0..<length x2in] (tensor_zero, 0)"

definition brute_force ::
  "double_mesh \<Rightarrow> real list \<Rightarrow> real list \<Rightarrow> real list \<Rightarrow> real list \<Rightarrow> real list \<Rightarrow> real list
     \<Rightarrow> real list \<Rightarrow> real \<Rightarrow> accum" where
  "brute_force double_mesh x1in y1in z1in x2in y2in z2in weights2in rsmooth =
     (map (\<lambda>i. fst (brute_force_point double_mesh x1in y1in z1in x2in y2in z2in weights2in
                      rsmooth i)) [0..<length x1in],
      map (\<lambda>i. snd (brute_force_point double_mesh x1in y1in z1in x2in y2in z2in weights2in
                      rsmooth i)) [0..<length x1in])"

text \<open>The images of the secondary point \<open>j\<close> that lie within the radius of the primary point \<open>i\<close>.\<close>

definition images_within ::
  "double_mesh \<Rightarrow> real list \<Rightarrow> real list \<Rightarrow> real list \<Rightarrow> real list \<Rightarrow> real list \<Rightarrow> real list
     \<Rightarrow> real \<Rightarrow> nat \<Rightarrow> nat \<Rightarrow> (real \<times> real \<times> real) list" where
  "images_within double_mesh x1in y1in z1in x2in y2in z2in rsmooth i j =
     filter (\<lambda>(sx, sy, sz).
         (x1in ! i - sx - x2in ! j) * (x1in ! i - sx - x2in ! j)
       + (y1in ! i - sy - y2in ! j) * (y1in ! i - sy - y2in ! j)
       + (z1in ! i - sz - z2in ! j) * (z1in ! i - sz - z2in ! j) < rsmooth * rsmooth)
       (List.product (image_shifts (PBCs double_mesh) (xperiod double_mesh))
          (List.product (image_shifts (PBCs double_mesh) (yperiod double_mesh))
             (image_shifts (PBCs double_mesh) (zperiod double_mesh))))"

text \<open>The locals the set-up computes on well-formed meshes.\<close>

definition wf_locals ::
  "double_mesh \<Rightarrow> real list \<Rightarrow> real list \<Rightarrow> real list \<Rightarrow> real list \<Rightarrow> real list \<Rightarrow> real list
     \<Rightarrow> real list \<Rightarrow> real \<Rightarrow> locals" where
  "wf_locals double_mesh x1in y1in z1in x2in y2in z2in weights2in rsmooth =
     \<lparr>rsmooth_squared = rsmooth * rsmooth, dm = double_mesh,
      x1_sorted = map (\<lambda>k. x1in ! nat k) (idx_sorted (mesh1 double_mesh)),
      y1_sorted = map (\<lambda>k. y1in ! nat k) (idx_sorted (mesh1 double_mesh)),
      z1_sorted = map (\<lambda>k. z1in ! nat k) (idx_sorted (mesh1 double_mesh)),
      x2_sorted = map (\<lambda>k. x2in ! nat k) (idx_sorted (mesh2 double_mesh)),
      y2_sorted = map (\<lambda>k. y2in ! nat k) (idx_sorted (mesh2 double_mesh)),
      z2_sorted = map (\<lambda>k. z2in ! nat k) (idx_sorted (mesh2 double_mesh)),
      w2_sorted = map (\<lambda>k. weights2in ! nat k) (idx_sorted (mesh2 double_mesh)),
      cell1_indices = cell_id_indices (mesh1 double_mesh),
      cell2_indices = cell_id_indices (mesh2 double_mesh),
      num_x2_covering_steps = \<lceil>search_xlength double_mesh / xcell_size (mesh2 double_mesh)\<rceil>,
      num_y2_covering_steps = \<lceil>search_ylength double_mesh / ycell_size (mesh2 double_mesh)\<rceil>,
      num_z2_covering_steps = \<lceil>search_zlength double_mesh / zcell_size (mesh2 double_mesh)\<rceil>,
      num_x2_per_x1 = num_xdivs (mesh2 double_mesh) div num_xdivs (mesh1 double_mesh),
      num_y2_per_y1 = num_ydivs (mesh2 double_mesh) div num_ydivs (mesh1 double_mesh),
      num_z2_per_z1 = num_zdivs (mesh2 double_mesh) div num_zdivs (mesh1 double_mesh)\<rparr>"

text \<open>The cell coordinates of the sorted points, from their coordinates and the cell sizes.\<close>

definition cx1 :: "locals \<Rightarrow> nat \<Rightarrow> int" where
  "cx1 L p = cell_coord (xcell_size (mesh1 (dm L))) (x1_sorted L ! p)"

definition cy1 :: "locals \<Rightarrow> nat \<Rightarrow> int" where
  "cy1 L p = cell_coord (ycell_size (mesh1 (dm L))) (y1_sorted L ! p)"

definition cz1 :: "locals \<Rightarrow> nat \<Rightarrow> int" where
  "cz1 L p = cell_coord (zcell_size (mesh1 (dm L))) (z1_sorted L ! p)"

definition cx2 :: "locals \<Rightarrow> nat \<Rightarrow> int" where
  "cx2 L j = cell_coord (xcell_size (mesh2 (dm L))) (x2_sorted L ! j)"

definition cy2 :: "locals \<Rightarrow> nat \<Rightarrow> int" where
  "cy2 L j = cell_coord (ycell_size (mesh2 (dm L))) (y2_sorted L ! j)"

definition cz2 :: "locals \<Rightarrow> nat \<Rightarrow> int" where
  "cz2 L j = cell_coord (zcell_size (mesh2 (dm L))) (z2_sorted L ! j)"

text \<open>Slot \<open>q\<close> of the pair of a tensor and a weight sum kept for one point.\<close>

definition acc_slot :: "tensor3 \<times> real \<Rightarrow> nat \<Rightarrow> real" where
  "acc_slot acc q = (if q < 9 then tensor_slot (fst acc) q else snd acc)"

text \<open>What one image of one secondary point adds to slot \<open>q\<close> of a primary point.\<close>

definition image_term ::
  "real \<Rightarrow> real \<Rightarrow> real \<Rightarrow> real \<Rightarrow> real \<Rightarrow> real \<Rightarrow> real \<Rightarrow> real \<Rightarrow> real \<Rightarrow> real \<Rightarrow> real
     \<Rightarrow> nat \<Rightarrow> real" where
  "image_term rsq x1 y1 z1 x2 y2 z2 w2 sx sy sz q =
     (let dx = x1 - sx - x2; dy = y1 - sy - y2; dz = z1 - sz - z2
      in if dx * dx + dy * dy + dz * dz < rsq then pair_slot w2 dx dy dz q else 0)"

text \<open>
  The spec's words for a box without periodicity: every secondary point is tested at its
  true separation from the primary point \<open>i\<close>, with no image and no wrapping.
\<close>

definition direct_point ::
  "real list \<Rightarrow> real list \<Rightarrow> real list \<Rightarrow> real list \<Rightarrow> real list \<Rightarrow> real list
     \<Rightarrow> real list \<Rightarrow> real \<Rightarrow> nat \<Rightarrow> tensor3 \<times> real" where
  "direct_point x1in y1in z1in x2in y2in z2in weights2in rsmooth i =
     fold (\<lambda>j. image_step (rsmooth * rsmooth) (x1in ! i) (y1in ! i) (z1in ! i)
                 (x2in ! j) (y2in ! j) (z2in ! j) (weights2in ! j) 0 0 0)
       [0..<length x2in] (tensor_zero, 0)"

definition direct_sum ::
  "real list \<Rightarrow> real list \<Rightarrow> real list \<Rightarrow> real list \<Rightarrow> real list \<Rightarrow> real list
     \<Rightarrow> real list \<Rightarrow> real \<Rightarrow> accum" where
  "direct_sum x1in y1in z1in x2in y2in z2in weights2in rsmooth =
     (map (\<lambda>i. fst (direct_point x1in y1in z1in x2in y2in z2in weights2in rsmooth i))
        [0..<length x1in],
      map (\<lambda>i. snd (direct_point x1in y1in z1in x2in y2in z2in weights2in rsmooth i))
        [0..<length x1in])"

subsection \<open>Concrete inputs\<close>

text \<open>
  A periodic box of period 10 cut into \<open>4 \<times> 4 \<times> 4\<close> cells of size 2.5 by both meshes,
  with search lengths 1. Sample 1 is one point in cell 0, sample 2 one point in the cell
  \<open>(3, 0, 0)\<close>, whose id is 48.
\<close>

definition wrap_mesh1 :: mesh where
  "wrap_mesh1 = \<lparr>num_xdivs = 4, num_ydivs = 4, num_zdivs = 4,
     xcell_size = 5 / 2, ycell_size = 5 / 2, zcell_size = 5 / 2, ncells = 64,
     cell_id_indices = 0 # replicate 64 1, idx_sorted = [0]\<rparr>"

definition wrap_mesh2 :: mesh where
  "wrap_mesh2 = \<lparr>num_xdivs = 4, num_ydivs = 4, num_zdivs = 4,
     xcell_size = 5 / 2, ycell_size = 5 / 2, zcell_size = 5 / 2, ncells = 64,
     cell_id_indices = replicate 49 0 @ replicate 16 1, idx_sorted = [0]\<rparr>"

definition wrap_dm :: double_mesh where
  "wrap_dm = \<lparr>mesh1 = wrap_mesh1, mesh2 = wrap_mesh2,
     xperiod = 10, yperiod = 10, zperiod = 10, PBCs = True,
     search_xlength = 1, search_ylength = 1, search_zlength = 1\<rparr>"

text \<open>The same box and mesh 1, with the point of sample 2 in cell 0 as well.\<close>

definition near_dm :: double_mesh where
  "near_dm = wrap_dm\<lparr>mesh2 := wrap_mesh1\<rparr>"

text \<open>
  A box of side 10 without periodicity, cut into \<open>2 \<times> 2 \<times> 2\<close> cells of size 5 by both
  meshes, with search lengths 2. Sample 1 is one point in cell 0, sample 2 one point in the
  cell \<open>(1, 0, 0)\<close>, whose id is 4.
\<close>

definition box_mesh1 :: mesh where
  "box_mesh1 = \<lparr>num_xdivs = 2, num_ydivs = 2, num_zdivs = 2,
     xcell_size = 5, ycell_size = 5, zcell_size = 5, ncells = 8,
     cell_id_indices = [0, 1, 1, 1, 1, 1, 1, 1, 1], idx_sorted = [0]\<rparr>"

definition box_mesh2 :: mesh where
  "box_mesh2 = \<lparr>num_xdivs = 2, num_ydivs = 2, num_zdivs = 2,
     xcell_size = 5, ycell_size = 5, zcell_size = 5, ncells = 8,
     cell_id_indices = [0, 0, 0, 0, 0, 1, 1, 1, 1], idx_sorted = [0]\<rparr>"

definition box_dm :: double_mesh where
  "box_dm = \<lparr>mesh1 = box_mesh1, mesh2 = box_mesh2,
     xperiod = 10, yperiod = 10, zperiod = 10, PBCs = False,
     search_xlength = 2, search_ylength = 2, search_zlength = 2\<rparr>"

text \<open>
  The single-cell meshes of the spec's concrete scenario: a box of side 10 without
  periodicity, one cell for each mesh, search lengths 2.
\<close>

definition one_mesh :: mesh where
  "one_mesh = \<lparr>num_xdivs = 1, num_ydivs = 1, num_zdivs = 1,
     xcell_size = 10, ycell_size = 10, zcell_size = 10, ncells = 1,
     cell_id_indices = [0, 1], idx_sorted = [0]\<rparr>"

definition one_dm :: double_mesh where
  "one_dm = \<lparr>mesh1 = one_mesh, mesh2 = one_mesh,
     xperiod = 10, yperiod = 10, zperiod = 10, PBCs = False,
     search_xlength = 2, search_ylength = 2, search_zlength = 2\<rparr>"

text \<open>
  The periodic box with two points in sample 1: point 0 lies in the cell \<open>(3, 0, 0)\<close>, of
  id 48, and point 1 in cell 0, so the sorted order of mesh 1 is point 1, then point 0.
\<close>

definition two_mesh1 :: mesh where
  "two_mesh1 = \<lparr>num_xdivs = 4, num_ydivs = 4, num_zdivs = 4,
     xcell_size = 5 / 2, ycell_size = 5 / 2, zcell_size = 5 / 2, ncells = 64,
     cell_id_indices = 0 # replicate 48 1 @ replicate 16 2, idx_sorted = [1, 0]\<rparr>"

definition two_dm :: double_mesh where
  "two_dm = wrap_dm\<lparr>mesh1 := two_mesh1\<rparr>"

text \<open>The same two meshes in a box without periodicity.\<close>

definition np_dm :: double_mesh where
  "np_dm = two_dm\<lparr>PBCs := False\<rparr>"

text \<open>
  A store that holds the seven arrays of the caller for the periodic box with two primary
  points, at the addresses 0 to 6: \<open>x1in\<close>, \<open>y1in\<close>, \<open>z1in\<close>, \<open>x2in\<close>, \<open>y2in\<close>, \<open>z2in\<close> and
  \<open>weights2in\<close>.
\<close>

definition two_heap :: heap where
  "two_heap = [Floats [9, 1 / 2], Floats [1 / 2, 1 / 2], Floats [1 / 2, 1 / 2],
               Floats [96 / 10], Floats [1 / 2], Floats [1 / 2], Floats [1]]"

text \<open>
  The periodic box with an index array of mesh 1 that is not one of a mesh: the cell 48 is
  given the range from -1 to 2.
\<close>

definition bad_mesh1 :: mesh where
  "bad_mesh1 = two_mesh1\<lparr>cell_id_indices := replicate 48 0 @ [- 1] @ replicate 16 2\<rparr>"

definition bad_dm :: double_mesh where
  "bad_dm = two_dm\<lparr>mesh1 := bad_mesh1\<rparr>"

section \<open>Auxiliary facts\<close>

lemma bind_r_simps [simp]: "bind_r (Inr v) f = f v" "bind_r (Inl e) f = Inl e"
  by (simp_all add: bind_r_def)

lemma bind_r_eq_Inr: "bind_r m f = Inr y \<longleftrightarrow> (\<exists>v. m = Inr v \<and> f v = Inr y)"
  by (cases m) simp_all

lemma for_each_invariant:
  assumes "\<And>i s s'. i \<in> set xs \<Longrightarrow> P s \<Longrightarrow> body i s = Inr s' \<Longrightarrow> P s'"
    and "P s" and "for_each xs body s = Inr s'"
  shows "P s'"
  using assms
proof (induction xs arbitrary: s)
  case Nil
  then show ?case by simp
next
  case (Cons i rest)
  from Cons.prems(3) obtain s1 where s1: "body i s = Inr s1" and r: "for_each rest body s1 = Inr s'"
    by (auto simp: bind_r_eq_Inr)
  have "P s1" using Cons.prems(1)[of i s s1] Cons.prems(2) s1 by simp
  moreover have "P t'" if "j \<in> set rest" "P t" "body j t = Inr t'" for j t t'
    using Cons.prems(1)[of j t t'] that by simp
  ultimately show ?case using Cons.IH[of s1] r by blast
qed

lemma tensor3_updates:
  "t\<lparr>t00 := a00, t11 := a11, t22 := a22, t01 := a01, t10 := a10, t02 := a02, t20 := a20,
      t12 := a12, t21 := a21\<rparr> =
   \<lparr>t00 = a00, t01 = a01, t02 = a02, t10 = a10, t11 = a11, t12 = a12, t20 = a20, t21 = a21,
      t22 = a22\<rparr>"
  by (cases t) simp

text \<open>The ten updates of accumulate, as one update of each array.\<close>

lemma accumulate_eq:
  "accumulate p dx dy dz w2 s =
     (if 0 \<le> p \<and> p < int (length (fst s)) \<and> p < int (length (snd s))
      then Inr ((fst s)[nat p := tensor_add (fst s ! nat p) (outer3 w2 dx dy dz)],
                (snd s)[nat p := snd s ! nat p + w2])
      else Inl OutOfBounds)"
proof (cases "0 \<le> p \<and> p < int (length (fst s))")
  case True
  then have n: "nat p < length (fst s)" by linarith
  show ?thesis using True n
    by (simp add: accumulate_def mv_iadd_def Let_def tensor_add_def outer3_def tensor3_updates)
next
  case False
  then show ?thesis
    by (auto simp add: accumulate_def mv_iadd_def Let_def)
qed

lemma accumulate_symmetric:
  assumes "list_all symmetric3 (fst s)" "accumulate p dx dy dz w2 s = Inr s'"
  shows "list_all symmetric3 (fst s')"
  using assms
  by (auto simp add: accumulate_eq list_all_length nth_list_update symmetric3_def tensor_add_def
        outer3_def split: if_splits)

lemma for_each_rel:
  assumes "\<And>i s1 s2 s1' s2'. i \<in> set xs \<Longrightarrow> R s1 s2 \<Longrightarrow> body1 i s1 = Inr s1'
             \<Longrightarrow> body2 i s2 = Inr s2' \<Longrightarrow> R s1' s2'"
    and "R s1 s2" and "for_each xs body1 s1 = Inr s1'" and "for_each xs body2 s2 = Inr s2'"
  shows "R s1' s2'"
  using assms
proof (induction xs arbitrary: s1 s2)
  case Nil
  then show ?case by simp
next
  case (Cons i rest)
  from Cons.prems(3) obtain u1 where u1: "body1 i s1 = Inr u1" "for_each rest body1 u1 = Inr s1'"
    by (auto simp: bind_r_eq_Inr)
  from Cons.prems(4) obtain u2 where u2: "body2 i s2 = Inr u2" "for_each rest body2 u2 = Inr s2'"
    by (auto simp: bind_r_eq_Inr)
  have "R u1 u2" using Cons.prems(1)[of i s1 s2 u1 u2] Cons.prems(2) u1 u2 by simp
  moreover have "R t1' t2'"
    if "j \<in> set rest" "R t1 t2" "body1 j t1 = Inr t1'" "body2 j t2 = Inr t2'"
    for j t1 t2 t1' t2'
    using Cons.prems(1)[of j t1 t2 t1' t2'] that by simp
  ultimately show ?case using Cons.IH[of u1 u2] u1 u2 by blast
qed

lemma set_mv_slice: "set (mv_slice xs a b) \<subseteq> set xs"
  by (auto simp: mv_slice_def Let_def dest: in_set_takeD in_set_dropD)

lemma pair_relD:
  "pair_rel R rsq1 rsq2 A \<Longrightarrow> set ws \<subseteq> A \<Longrightarrow> R s1 s2
     \<Longrightarrow> pair_step rsq1 p x y z xs ys zs ws j s1 = Inr s1'
     \<Longrightarrow> pair_step rsq2 p x y z xs ys zs ws j s2 = Inr s2' \<Longrightarrow> R s1' s2'"
  unfolding pair_rel_def by blast

lemma point_step_rel:
  assumes H: "pair_rel R rsq1 rsq2 A" and ws: "set ws \<subseteq> A"
    and R: "R s1 s2"
    and 1: "point_step rsq1 ifirst1 xs1 ys1 zs1 sx sy sz xs ys zs ws Nj i s1 = Inr s1'"
    and 2: "point_step rsq2 ifirst1 xs1 ys1 zs1 sx sy sz xs ys zs ws Nj i s2 = Inr s2'"
  shows "R s1' s2'"
proof -
  from 1 obtain x1 y1 z1 where
    r1: "for_each (py_range 0 Nj)
           (pair_step rsq1 (ifirst1 + i) (x1 - sx) (y1 - sy) (z1 - sz) xs ys zs ws) s1 = Inr s1'"
    and g: "mv_get xs1 i = Inr x1" "mv_get ys1 i = Inr y1" "mv_get zs1 i = Inr z1"
    by (auto simp: point_step_def bind_r_eq_Inr Let_def)
  from 2 g have
    r2: "for_each (py_range 0 Nj)
           (pair_step rsq2 (ifirst1 + i) (x1 - sx) (y1 - sy) (z1 - sz) xs ys zs ws) s2 = Inr s2'"
    by (auto simp: point_step_def bind_r_eq_Inr Let_def)
  show ?thesis
  proof (rule for_each_rel[where R = R, OF _ R r1 r2])
    fix j t1 t2 t1' t2'
    assume "R t1 t2"
      and "pair_step rsq1 (ifirst1 + i) (x1 - sx) (y1 - sy) (z1 - sz) xs ys zs ws j t1 = Inr t1'"
      and "pair_step rsq2 (ifirst1 + i) (x1 - sx) (y1 - sy) (z1 - sz) xs ys zs ws j t2 = Inr t2'"
    then show "R t1' t2'" by (rule pair_relD[OF H ws])
  qed
qed

lemma cell_pair_rel:
  assumes H: "pair_rel R (rsmooth_squared L) rsq2 (set (w2_sorted L))"
    and R: "R s1 s2"
    and 1: "cell_pair L ifirst1 Ni xs1 ys1 zs1 ix2 iy2 iz2 sx sy sz s1 = Inr s1'"
    and 2: "cell_pair (L\<lparr>rsmooth_squared := rsq2\<rparr>) ifirst1 Ni xs1 ys1 zs1 ix2 iy2 iz2 sx sy sz s2
              = Inr s2'"
  shows "R s1' s2'"
proof -
  define c where "c = ix2 * (num_ydivs (mesh2 (dm L)) * num_zdivs (mesh2 (dm L)))
                       + iy2 * num_zdivs (mesh2 (dm L)) + iz2"
  from 1 obtain a b where
    g: "mv_get (cell2_indices L) c = Inr a" "mv_get (cell2_indices L) (c + 1) = Inr b"
    by (auto simp: cell_pair_def bind_r_eq_Inr Let_def c_def)
  show ?thesis
  proof (cases "b - a > 0")
    case True
    have ws: "set (mv_slice (w2_sorted L) a b) \<subseteq> set (w2_sorted L)" by (rule set_mv_slice)
    from 1 g True have
      r1: "for_each (py_range 0 Ni)
             (point_step (rsmooth_squared L) ifirst1 xs1 ys1 zs1 sx sy sz
                (mv_slice (x2_sorted L) a b) (mv_slice (y2_sorted L) a b)
                (mv_slice (z2_sorted L) a b) (mv_slice (w2_sorted L) a b) (b - a)) s1 = Inr s1'"
      by (simp add: cell_pair_def Let_def c_def)
    from 2 g True have
      r2: "for_each (py_range 0 Ni)
             (point_step rsq2 ifirst1 xs1 ys1 zs1 sx sy sz
                (mv_slice (x2_sorted L) a b) (mv_slice (y2_sorted L) a b)
                (mv_slice (z2_sorted L) a b) (mv_slice (w2_sorted L) a b) (b - a)) s2 = Inr s2'"
      by (simp add: cell_pair_def Let_def c_def)
    show ?thesis
    proof (rule for_each_rel[where R = R, OF _ R r1 r2])
      fix i t1 t2 t1' t2'
      assume "R t1 t2"
        and "point_step (rsmooth_squared L) ifirst1 xs1 ys1 zs1 sx sy sz
               (mv_slice (x2_sorted L) a b) (mv_slice (y2_sorted L) a b)
               (mv_slice (z2_sorted L) a b) (mv_slice (w2_sorted L) a b) (b - a) i t1 = Inr t1'"
        and "point_step rsq2 ifirst1 xs1 ys1 zs1 sx sy sz
               (mv_slice (x2_sorted L) a b) (mv_slice (y2_sorted L) a b)
               (mv_slice (z2_sorted L) a b) (mv_slice (w2_sorted L) a b) (b - a) i t2 = Inr t2'"
      then show "R t1' t2'" by (rule point_step_rel[OF H ws])
    qed
  next
    case False
    with 1 2 g R show ?thesis by (simp add: cell_pair_def Let_def c_def)
  qed
qed

lemma z_step_rel:
  assumes H: "pair_rel R (rsmooth_squared L) rsq2 (set (w2_sorted L))"
    and R: "R s1 s2"
    and 1: "z_step L ifirst1 Ni xs1 ys1 zs1 ix2 sx iy2 sy k s1 = Inr s1'"
    and 2: "z_step (L\<lparr>rsmooth_squared := rsq2\<rparr>) ifirst1 Ni xs1 ys1 zs1 ix2 sx iy2 sy k s2 = Inr s2'"
  shows "R s1' s2'"
proof -
  define sz where "sz = shift_of (PBCs (dm L)) (zperiod (dm L)) (num_zdivs (mesh2 (dm L))) k"
  from 1 obtain iz2 where m: "py_mod k (num_zdivs (mesh2 (dm L))) = Inr iz2"
    and r1: "cell_pair L ifirst1 Ni xs1 ys1 zs1 ix2 iy2 iz2 sx sy sz s1 = Inr s1'"
    by (auto simp: z_step_def bind_r_eq_Inr Let_def sz_def)
  from 2 m have
    r2: "cell_pair (L\<lparr>rsmooth_squared := rsq2\<rparr>) ifirst1 Ni xs1 ys1 zs1 ix2 iy2 iz2 sx sy sz s2
           = Inr s2'"
    by (simp add: z_step_def Let_def sz_def)
  show ?thesis by (rule cell_pair_rel[OF H R r1 r2])
qed

lemma y_step_rel:
  assumes H: "pair_rel R (rsmooth_squared L) rsq2 (set (w2_sorted L))"
    and R: "R s1 s2"
    and 1: "y_step L ifirst1 Ni xs1 ys1 zs1 lz rz ix2 sx k s1 = Inr s1'"
    and 2: "y_step (L\<lparr>rsmooth_squared := rsq2\<rparr>) ifirst1 Ni xs1 ys1 zs1 lz rz ix2 sx k s2 = Inr s2'"
  shows "R s1' s2'"
proof -
  define sy where "sy = shift_of (PBCs (dm L)) (yperiod (dm L)) (num_ydivs (mesh2 (dm L))) k"
  from 1 obtain iy2 where m: "py_mod k (num_ydivs (mesh2 (dm L))) = Inr iy2"
    and r1: "for_each (py_range lz rz) (z_step L ifirst1 Ni xs1 ys1 zs1 ix2 sx iy2 sy) s1 = Inr s1'"
    by (auto simp: y_step_def bind_r_eq_Inr Let_def sy_def)
  from 2 m have
    r2: "for_each (py_range lz rz)
           (z_step (L\<lparr>rsmooth_squared := rsq2\<rparr>) ifirst1 Ni xs1 ys1 zs1 ix2 sx iy2 sy) s2 = Inr s2'"
    by (simp add: y_step_def Let_def sy_def)
  show ?thesis
  proof (rule for_each_rel[where R = R, OF _ R r1 r2])
    fix i t1 t2 t1' t2'
    assume "R t1 t2"
      and "z_step L ifirst1 Ni xs1 ys1 zs1 ix2 sx iy2 sy i t1 = Inr t1'"
      and "z_step (L\<lparr>rsmooth_squared := rsq2\<rparr>) ifirst1 Ni xs1 ys1 zs1 ix2 sx iy2 sy i t2 = Inr t2'"
    then show "R t1' t2'" by (rule z_step_rel[OF H])
  qed
qed

lemma x_step_rel:
  assumes H: "pair_rel R (rsmooth_squared L) rsq2 (set (w2_sorted L))"
    and R: "R s1 s2"
    and 1: "x_step L ifirst1 Ni xs1 ys1 zs1 ly ry lz rz k s1 = Inr s1'"
    and 2: "x_step (L\<lparr>rsmooth_squared := rsq2\<rparr>) ifirst1 Ni xs1 ys1 zs1 ly ry lz rz k s2 = Inr s2'"
  shows "R s1' s2'"
proof -
  define sx where "sx = shift_of (PBCs (dm L)) (xperiod (dm L)) (num_xdivs (mesh2 (dm L))) k"
  from 1 obtain ix2 where m: "py_mod k (num_xdivs (mesh2 (dm L))) = Inr ix2"
    and r1: "for_each (py_range ly ry)
               (y_step L ifirst1 Ni xs1 ys1 zs1 lz rz ix2 sx) s1 = Inr s1'"
    by (auto simp: x_step_def bind_r_eq_Inr Let_def sx_def)
  from 2 m have
    r2: "for_each (py_range ly ry)
           (y_step (L\<lparr>rsmooth_squared := rsq2\<rparr>) ifirst1 Ni xs1 ys1 zs1 lz rz ix2 sx) s2 = Inr s2'"
    by (simp add: x_step_def Let_def sx_def)
  show ?thesis
  proof (rule for_each_rel[where R = R, OF _ R r1 r2])
    fix i t1 t2 t1' t2'
    assume "R t1 t2"
      and "y_step L ifirst1 Ni xs1 ys1 zs1 lz rz ix2 sx i t1 = Inr t1'"
      and "y_step (L\<lparr>rsmooth_squared := rsq2\<rparr>) ifirst1 Ni xs1 ys1 zs1 lz rz ix2 sx i t2 = Inr t2'"
    then show "R t1' t2'" by (rule y_step_rel[OF H])
  qed
qed

lemma cell1_step_rel:
  assumes H: "pair_rel R (rsmooth_squared L) rsq2 (set (w2_sorted L))"
    and R: "R s1 s2"
    and 1: "cell1_step L c s1 = Inr s1'"
    and 2: "cell1_step (L\<lparr>rsmooth_squared := rsq2\<rparr>) c s2 = Inr s2'"
  shows "R s1' s2'"
proof -
  from 1 obtain a b where
    g: "mv_get (cell1_indices L) c = Inr a" "mv_get (cell1_indices L) (c + 1) = Inr b"
    by (auto simp: cell1_step_def bind_r_eq_Inr Let_def)
  show ?thesis
  proof (cases "b - a > 0")
    case True
    define ny nz where "ny = num_ydivs (mesh1 (dm L))" and "nz = num_zdivs (mesh1 (dm L))"
    from 1 g True obtain ix1 iy1 where
      d: "py_floordiv c (ny * nz) = Inr ix1" "py_floordiv (c - ix1 * ny * nz) nz = Inr iy1"
      by (auto simp: cell1_step_def bind_r_eq_Inr Let_def ny_def nz_def)
    define iz1 where "iz1 = c - ix1 * ny * nz - iy1 * nz"
    define xs1 ys1 zs1 where "xs1 = mv_slice (x1_sorted L) a b"
      and "ys1 = mv_slice (y1_sorted L) a b" and "zs1 = mv_slice (z1_sorted L) a b"
    define lx rx where "lx = ix1 * num_x2_per_x1 L - num_x2_covering_steps L"
      and "rx = (ix1 + 1) * num_x2_per_x1 L + num_x2_covering_steps L"
    define ly ry where "ly = iy1 * num_y2_per_y1 L - num_y2_covering_steps L"
      and "ry = (iy1 + 1) * num_y2_per_y1 L + num_y2_covering_steps L"
    define lz rz where "lz = iz1 * num_z2_per_z1 L - num_z2_covering_steps L"
      and "rz = (iz1 + 1) * num_z2_per_z1 L + num_z2_covering_steps L"
    note defs = ny_def nz_def iz1_def xs1_def ys1_def zs1_def lx_def rx_def ly_def ry_def
      lz_def rz_def
    from 1 g True d have
      r1: "for_each (py_range lx rx) (x_step L a (b - a) xs1 ys1 zs1 ly ry lz rz) s1 = Inr s1'"
      by (simp add: cell1_step_def Let_def defs)
    from 2 g True d have
      r2: "for_each (py_range lx rx)
             (x_step (L\<lparr>rsmooth_squared := rsq2\<rparr>) a (b - a) xs1 ys1 zs1 ly ry lz rz) s2 = Inr s2'"
      by (simp add: cell1_step_def Let_def defs)
    show ?thesis
    proof (rule for_each_rel[where R = R, OF _ R r1 r2])
      fix i t1 t2 t1' t2'
      assume "R t1 t2"
        and "x_step L a (b - a) xs1 ys1 zs1 ly ry lz rz i t1 = Inr t1'"
        and "x_step (L\<lparr>rsmooth_squared := rsq2\<rparr>) a (b - a) xs1 ys1 zs1 ly ry lz rz i t2 = Inr t2'"
      then show "R t1' t2'" by (rule x_step_rel[OF H])
    qed
  next
    case False
    with 1 2 g R show ?thesis by (simp add: cell1_step_def Let_def)
  qed
qed

lemma engine_loops_rel:
  assumes H: "pair_rel R (rsmooth_squared L) rsq2 (set (w2_sorted L))"
    and R0: "R (replicate (length (x1_sorted L)) tensor_zero, replicate (length (x1_sorted L)) 0)
               (replicate (length (x1_sorted L)) tensor_zero, replicate (length (x1_sorted L)) 0)"
    and 1: "engine_loops L ct = Inr s1'"
    and 2: "engine_loops (L\<lparr>rsmooth_squared := rsq2\<rparr>) ct = Inr s2'"
  shows "R s1' s2'"
proof -
  define z where "z = (replicate (length (x1_sorted L)) tensor_zero,
                       replicate (length (x1_sorted L)) (0::real))"
  from 1 have r1: "for_each (py_range (fst ct) (snd ct)) (cell1_step L) z = Inr s1'"
    by (simp add: engine_loops_def Let_def z_def)
  from 2 have r2: "for_each (py_range (fst ct) (snd ct))
                     (cell1_step (L\<lparr>rsmooth_squared := rsq2\<rparr>)) z = Inr s2'"
    by (simp add: engine_loops_def Let_def z_def)
  from R0 have R: "R z z" by (simp add: z_def)
  show ?thesis
  proof (rule for_each_rel[where R = R, OF _ R r1 r2])
    fix i t1 t2 t1' t2'
    assume "R t1 t2" and "cell1_step L i t1 = Inr t1'"
      and "cell1_step (L\<lparr>rsmooth_squared := rsq2\<rparr>) i t2 = Inr t2'"
    then show "R t1' t2'" by (rule cell1_step_rel[OF H])
  qed
qed

lemma np_index_mem: "np_index xs k = Inr v \<Longrightarrow> v \<in> set xs"
  by (auto simp: np_index_def Let_def split: if_splits)

lemma np_index_nth:
  assumes "np_index xs k = Inr v"
  obtains n where "n < length xs" "v = xs ! n" "n = nat (if k < 0 then k + int (length xs) else k)"
  using assms by (auto simp: np_index_def Let_def split: if_splits)

lemma np_take_mem: "np_take xs ks = Inr ys \<Longrightarrow> v \<in> set ys \<Longrightarrow> v \<in> set xs"
proof (induction ks arbitrary: ys)
  case Nil
  then show ?case by simp
next
  case (Cons k ks)
  then show ?case by (auto simp: bind_r_eq_Inr dest: np_index_mem)
qed

lemma np_take_nth:
  "np_take xs ks = Inr ys \<Longrightarrow>
     length ys = length ks \<and> (\<forall>i < length ks. np_index xs (ks ! i) = Inr (ys ! i))"
proof (induction ks arbitrary: ys)
  case Nil
  then show ?case by simp
next
  case (Cons k ks)
  then obtain v vs where v: "np_index xs k = Inr v" and vs: "np_take xs ks = Inr vs"
    and ys: "ys = v # vs"
    by (auto simp: bind_r_eq_Inr)
  from Cons.IH[OF vs] v ys show ?case by (auto simp: nth_Cons split: nat.splits)
qed

lemma pair_step_cases:
  assumes "pair_step rsq p x y z xs ys zs ws j s = Inr s'"
  obtains x2 y2 z2 w2 where "mv_get xs j = Inr x2" "mv_get ys j = Inr y2" "mv_get zs j = Inr z2"
    "mv_get ws j = Inr w2"
    "s' = s \<or> ((x - x2) * (x - x2) + (y - y2) * (y - y2) + (z - z2) * (z - z2) < rsq
              \<and> accumulate p (x - x2) (y - y2) (z - z2) w2 s = Inr s')"
  using assms by (auto simp: pair_step_def bind_r_eq_Inr Let_def split: if_splits)

lemma symmetric_pair_rel:
  "pair_rel (\<lambda>s1 s2. list_all symmetric3 (fst s1)) rsq rsq A"
  unfolding pair_rel_def
proof (intro allI impI)
  fix p x y z xs ys zs ws j and s1 s2 s1' s2' :: accum
  assume R: "list_all symmetric3 (fst s1)"
    and 1: "pair_step rsq p x y z xs ys zs ws j s1 = Inr s1'"
  from 1 show "list_all symmetric3 (fst s1')"
  proof (rule pair_step_cases)
    fix x2 y2 z2 w2
    assume "s1' = s1 \<or> ((x - x2) * (x - x2) + (y - y2) * (y - y2) + (z - z2) * (z - z2) < rsq
              \<and> accumulate p (x - x2) (y - y2) (z - z2) w2 s1 = Inr s1')"
    with R show ?thesis by (auto dest: accumulate_symmetric)
  qed
qed

lemma locals_same_radius: "L\<lparr>rsmooth_squared := rsmooth_squared L\<rparr> = L"
  by simp

lemma engine_loops_symmetric:
  assumes "engine_loops L ct = Inr s"
  shows "list_all symmetric3 (fst s)"
proof -
  have 2: "engine_loops (L\<lparr>rsmooth_squared := rsmooth_squared L\<rparr>) ct = Inr s"
    using assms by simp
  show ?thesis
    by (rule engine_loops_rel[where R = "\<lambda>s1 s2. list_all symmetric3 (fst s1)",
          OF symmetric_pair_rel _ assms 2])
       (simp add: list_all_length symmetric3_def tensor_zero_def)
qed

lemma unsort_fst: "unsort idx s = Inr s' \<Longrightarrow> t \<in> set (fst s') \<Longrightarrow> t \<in> set (fst s)"
  by (auto simp: unsort_def Let_def bind_r_eq_Inr dest: np_take_mem)

lemma mv_get_mem: "mv_get xs j = Inr v \<Longrightarrow> v \<in> set xs"
  by (auto simp: mv_get_def split: if_splits)

lemma accumulate_weight_le:
  assumes "weight_le s1 s2" "accumulate p dx dy dz w s1 = Inr s1'"
    "accumulate p dx dy dz w s2 = Inr s2'"
  shows "weight_le s1' s2'"
  using assms by (auto simp: accumulate_eq weight_le_def nth_list_update split: if_splits)

lemma accumulate_weight_ge:
  assumes "weight_le s1 s2" "accumulate p dx dy dz w s2 = Inr s2'" "0 \<le> w"
  shows "weight_le s1 s2'"
  using assms by (auto simp: accumulate_eq weight_le_def nth_list_update split: if_splits)

lemma weight_le_pair_rel:
  assumes "rsq1 \<le> rsq2"
  shows "pair_rel weight_le rsq1 rsq2 {w. 0 \<le> w}"
  unfolding pair_rel_def
proof (intro allI impI)
  fix p x y z xs ys zs ws j s1 s2 s1' s2'
  assume ws: "set ws \<subseteq> {w. 0 \<le> w}" and R: "weight_le s1 s2"
    and 1: "pair_step rsq1 p x y z xs ys zs ws j s1 = Inr s1'"
    and 2: "pair_step rsq2 p x y z xs ys zs ws j s2 = Inr s2'"
  from 1 obtain x2 y2 z2 w2 where g: "mv_get xs j = Inr x2" "mv_get ys j = Inr y2"
    "mv_get zs j = Inr z2" "mv_get ws j = Inr w2"
    by (rule pair_step_cases)
  from g(4) ws have w: "0 \<le> w2" by (auto dest: mv_get_mem)
  define dsq where "dsq = (x - x2) * (x - x2) + (y - y2) * (y - y2) + (z - z2) * (z - z2)"
  from 1 g have e1: "(if dsq < rsq1 then accumulate p (x - x2) (y - y2) (z - z2) w2 s1 else Inr s1)
                       = Inr s1'"
    by (simp add: pair_step_def Let_def dsq_def)
  from 2 g have e2: "(if dsq < rsq2 then accumulate p (x - x2) (y - y2) (z - z2) w2 s2 else Inr s2)
                       = Inr s2'"
    by (simp add: pair_step_def Let_def dsq_def)
  show "weight_le s1' s2'"
  proof (cases "dsq < rsq1")
    case True
    with assms have "dsq < rsq2" by simp
    with True e1 e2 R show ?thesis by (auto dest: accumulate_weight_le)
  next
    case False
    with e1 have "s1' = s1" by simp
    with e2 R w show ?thesis by (auto split: if_splits dest: accumulate_weight_ge)
  qed
qed

lemma engine_locals_radius:
  assumes "engine_locals dmesh x1in y1in z1in x2in y2in z2in w2in r1 = Inr L"
  shows "engine_locals dmesh x1in y1in z1in x2in y2in z2in w2in r2
           = Inr (L\<lparr>rsmooth_squared := r2 * r2\<rparr>)"
    and "rsmooth_squared L = r1 * r1" and "set (w2_sorted L) \<subseteq> set w2in"
  using assms by (auto simp: engine_locals_def bind_r_eq_Inr dest: np_take_mem)

lemma unsort_weight_le:
  assumes "weight_le s1 s2" "unsort idx s1 = Inr s1'" "unsort idx s2 = Inr s2'"
  shows "weight_le s1' s2'"
proof -
  define ks where "ks = unsorting_indices idx"
  from assms(2) obtain W1 where 1: "np_take (snd s1) ks = Inr W1" and w1: "snd s1' = W1"
    by (auto simp: unsort_def Let_def bind_r_eq_Inr ks_def)
  from assms(3) obtain W2 where 2: "np_take (snd s2) ks = Inr W2" and w2: "snd s2' = W2"
    by (auto simp: unsort_def Let_def bind_r_eq_Inr ks_def)
  note n1 = np_take_nth[OF 1] and n2 = np_take_nth[OF 2]
  have "W1 ! i \<le> W2 ! i" if "i < length ks" for i
  proof -
    from n1 n2 that have "np_index (snd s1) (ks ! i) = Inr (W1 ! i)"
      "np_index (snd s2) (ks ! i) = Inr (W2 ! i)" by simp_all
    then show ?thesis
      using assms(1) by (auto simp: weight_le_def elim!: np_index_nth)
  qed
  with n1 n2 w1 w2 show ?thesis by (simp add: weight_le_def)
qed

text \<open>The loop nest run from two related states of the output arrays.\<close>

lemma for_each_sim:
  assumes "\<And>i s1 s2 s1'. i \<in> set xs \<Longrightarrow> R s1 s2 \<Longrightarrow> body i s1 = Inr s1'
             \<Longrightarrow> \<exists>s2'. body i s2 = Inr s2' \<and> R s1' s2'"
    and "R s1 s2" and "for_each xs body s1 = Inr s1'"
  shows "\<exists>s2'. for_each xs body s2 = Inr s2' \<and> R s1' s2'"
  using assms
proof (induction xs arbitrary: s1 s2)
  case Nil
  then show ?case by simp
next
  case (Cons i rest)
  from Cons.prems(3) obtain u1 where u1: "body i s1 = Inr u1" "for_each rest body u1 = Inr s1'"
    by (auto simp: bind_r_eq_Inr)
  from Cons.prems(1)[of i s1 s2 u1] Cons.prems(2) u1 obtain u2 where
    u2: "body i s2 = Inr u2" "R u1 u2" by auto
  have "\<exists>t2'. body j t2 = Inr t2' \<and> R t1' t2'"
    if "j \<in> set rest" "R t1 t2" "body j t1 = Inr t1'" for j t1 t2 t1'
    using Cons.prems(1)[of j t1 t2 t1'] that by simp
  from Cons.IH[of u1 u2, OF this u2(2) u1(2)] u2(1) show ?case by simp
qed

lemma acc_simD:
  "acc_sim R \<Longrightarrow> R s1 s2 \<Longrightarrow> accumulate p dx dy dz w s1 = Inr s1'
     \<Longrightarrow> \<exists>s2'. accumulate p dx dy dz w s2 = Inr s2' \<and> R s1' s2'"
  unfolding acc_sim_def by blast

lemma pair_step_sim:
  assumes H: "acc_sim R" and R: "R s1 s2"
    and 1: "pair_step rsq p x y z xs ys zs ws j s1 = Inr s1'"
  shows "\<exists>s2'. pair_step rsq p x y z xs ys zs ws j s2 = Inr s2' \<and> R s1' s2'"
proof -
  from 1 obtain x2 y2 z2 w2 where g: "mv_get xs j = Inr x2" "mv_get ys j = Inr y2"
    "mv_get zs j = Inr z2" "mv_get ws j = Inr w2"
    by (rule pair_step_cases)
  define dsq where "dsq = (x - x2) * (x - x2) + (y - y2) * (y - y2) + (z - z2) * (z - z2)"
  from 1 g have e1: "(if dsq < rsq then accumulate p (x - x2) (y - y2) (z - z2) w2 s1 else Inr s1)
                       = Inr s1'"
    by (simp add: pair_step_def Let_def dsq_def)
  have e2: "pair_step rsq p x y z xs ys zs ws j s2
            = (if dsq < rsq then accumulate p (x - x2) (y - y2) (z - z2) w2 s2 else Inr s2)"
    using g by (simp add: pair_step_def Let_def dsq_def)
  show ?thesis
  proof (cases "dsq < rsq")
    case True
    with e1 have "accumulate p (x - x2) (y - y2) (z - z2) w2 s1 = Inr s1'" by simp
    from acc_simD[OF H R this] True e2 show ?thesis by simp
  next
    case False
    with e1 e2 R show ?thesis by simp
  qed
qed

lemma point_step_sim:
  assumes H: "acc_sim R" and R: "R s1 s2"
    and 1: "point_step rsq ifirst1 xs1 ys1 zs1 sx sy sz xs ys zs ws Nj i s1 = Inr s1'"
  shows "\<exists>s2'. point_step rsq ifirst1 xs1 ys1 zs1 sx sy sz xs ys zs ws Nj i s2 = Inr s2'
            \<and> R s1' s2'"
proof -
  from 1 obtain x1 y1 z1 where
    r1: "for_each (py_range 0 Nj)
           (pair_step rsq (ifirst1 + i) (x1 - sx) (y1 - sy) (z1 - sz) xs ys zs ws) s1 = Inr s1'"
    and g: "mv_get xs1 i = Inr x1" "mv_get ys1 i = Inr y1" "mv_get zs1 i = Inr z1"
    by (auto simp: point_step_def bind_r_eq_Inr Let_def)
  have "\<exists>s2'. for_each (py_range 0 Nj)
           (pair_step rsq (ifirst1 + i) (x1 - sx) (y1 - sy) (z1 - sz) xs ys zs ws) s2 = Inr s2'
           \<and> R s1' s2'"
  proof (rule for_each_sim[where R = R, OF _ R r1])
    fix j t1 t2 t1'
    assume "R t1 t2"
      and "pair_step rsq (ifirst1 + i) (x1 - sx) (y1 - sy) (z1 - sz) xs ys zs ws j t1 = Inr t1'"
    then show "\<exists>t2'. pair_step rsq (ifirst1 + i) (x1 - sx) (y1 - sy) (z1 - sz) xs ys zs ws j t2
                  = Inr t2' \<and> R t1' t2'"
      by (rule pair_step_sim[OF H])
  qed
  with g show ?thesis by (simp add: point_step_def Let_def)
qed

lemma cell_pair_sim:
  assumes H: "acc_sim R" and R: "R s1 s2"
    and 1: "cell_pair L ifirst1 Ni xs1 ys1 zs1 ix2 iy2 iz2 sx sy sz s1 = Inr s1'"
  shows "\<exists>s2'. cell_pair L ifirst1 Ni xs1 ys1 zs1 ix2 iy2 iz2 sx sy sz s2 = Inr s2' \<and> R s1' s2'"
proof -
  define c where "c = ix2 * (num_ydivs (mesh2 (dm L)) * num_zdivs (mesh2 (dm L)))
                       + iy2 * num_zdivs (mesh2 (dm L)) + iz2"
  from 1 obtain a b where
    g: "mv_get (cell2_indices L) c = Inr a" "mv_get (cell2_indices L) (c + 1) = Inr b"
    by (auto simp: cell_pair_def bind_r_eq_Inr Let_def c_def)
  show ?thesis
  proof (cases "b - a > 0")
    case True
    define body where "body = point_step (rsmooth_squared L) ifirst1 xs1 ys1 zs1 sx sy sz
                (mv_slice (x2_sorted L) a b) (mv_slice (y2_sorted L) a b)
                (mv_slice (z2_sorted L) a b) (mv_slice (w2_sorted L) a b) (b - a)"
    from 1 g True have r1: "for_each (py_range 0 Ni) body s1 = Inr s1'"
      by (simp add: cell_pair_def Let_def c_def body_def)
    have "\<exists>s2'. for_each (py_range 0 Ni) body s2 = Inr s2' \<and> R s1' s2'"
    proof (rule for_each_sim[where R = R, OF _ R r1])
      fix i t1 t2 t1'
      assume "R t1 t2" and "body i t1 = Inr t1'"
      then show "\<exists>t2'. body i t2 = Inr t2' \<and> R t1' t2'"
        unfolding body_def by (rule point_step_sim[OF H])
    qed
    with g True show ?thesis by (simp add: cell_pair_def Let_def c_def body_def)
  next
    case False
    with 1 g R show ?thesis by (simp add: cell_pair_def Let_def c_def)
  qed
qed

lemma z_step_sim:
  assumes H: "acc_sim R" and R: "R s1 s2"
    and 1: "z_step L ifirst1 Ni xs1 ys1 zs1 ix2 sx iy2 sy k s1 = Inr s1'"
  shows "\<exists>s2'. z_step L ifirst1 Ni xs1 ys1 zs1 ix2 sx iy2 sy k s2 = Inr s2' \<and> R s1' s2'"
proof -
  define sz where "sz = shift_of (PBCs (dm L)) (zperiod (dm L)) (num_zdivs (mesh2 (dm L))) k"
  from 1 obtain iz2 where m: "py_mod k (num_zdivs (mesh2 (dm L))) = Inr iz2"
    and r1: "cell_pair L ifirst1 Ni xs1 ys1 zs1 ix2 iy2 iz2 sx sy sz s1 = Inr s1'"
    by (auto simp: z_step_def bind_r_eq_Inr Let_def sz_def)
  from cell_pair_sim[OF H R r1] m show ?thesis
    by (simp add: z_step_def Let_def sz_def)
qed

lemma y_step_sim:
  assumes H: "acc_sim R" and R: "R s1 s2"
    and 1: "y_step L ifirst1 Ni xs1 ys1 zs1 lz rz ix2 sx k s1 = Inr s1'"
  shows "\<exists>s2'. y_step L ifirst1 Ni xs1 ys1 zs1 lz rz ix2 sx k s2 = Inr s2' \<and> R s1' s2'"
proof -
  define sy where "sy = shift_of (PBCs (dm L)) (yperiod (dm L)) (num_ydivs (mesh2 (dm L))) k"
  from 1 obtain iy2 where m: "py_mod k (num_ydivs (mesh2 (dm L))) = Inr iy2"
    and r1: "for_each (py_range lz rz) (z_step L ifirst1 Ni xs1 ys1 zs1 ix2 sx iy2 sy) s1 = Inr s1'"
    by (auto simp: y_step_def bind_r_eq_Inr Let_def sy_def)
  have "\<exists>s2'. for_each (py_range lz rz) (z_step L ifirst1 Ni xs1 ys1 zs1 ix2 sx iy2 sy) s2
            = Inr s2' \<and> R s1' s2'"
  proof (rule for_each_sim[where R = R, OF _ R r1])
    fix i t1 t2 t1'
    assume "R t1 t2" and "z_step L ifirst1 Ni xs1 ys1 zs1 ix2 sx iy2 sy i t1 = Inr t1'"
    then show "\<exists>t2'. z_step L ifirst1 Ni xs1 ys1 zs1 ix2 sx iy2 sy i t2 = Inr t2' \<and> R t1' t2'"
      by (rule z_step_sim[OF H])
  qed
  with m show ?thesis by (simp add: y_step_def Let_def sy_def)
qed

lemma x_step_sim:
  assumes H: "acc_sim R" and R: "R s1 s2"
    and 1: "x_step L ifirst1 Ni xs1 ys1 zs1 ly ry lz rz k s1 = Inr s1'"
  shows "\<exists>s2'. x_step L ifirst1 Ni xs1 ys1 zs1 ly ry lz rz k s2 = Inr s2' \<and> R s1' s2'"
proof -
  define sx where "sx = shift_of (PBCs (dm L)) (xperiod (dm L)) (num_xdivs (mesh2 (dm L))) k"
  from 1 obtain ix2 where m: "py_mod k (num_xdivs (mesh2 (dm L))) = Inr ix2"
    and r1: "for_each (py_range ly ry)
               (y_step L ifirst1 Ni xs1 ys1 zs1 lz rz ix2 sx) s1 = Inr s1'"
    by (auto simp: x_step_def bind_r_eq_Inr Let_def sx_def)
  have "\<exists>s2'. for_each (py_range ly ry) (y_step L ifirst1 Ni xs1 ys1 zs1 lz rz ix2 sx) s2
            = Inr s2' \<and> R s1' s2'"
  proof (rule for_each_sim[where R = R, OF _ R r1])
    fix i t1 t2 t1'
    assume "R t1 t2" and "y_step L ifirst1 Ni xs1 ys1 zs1 lz rz ix2 sx i t1 = Inr t1'"
    then show "\<exists>t2'. y_step L ifirst1 Ni xs1 ys1 zs1 lz rz ix2 sx i t2 = Inr t2' \<and> R t1' t2'"
      by (rule y_step_sim[OF H])
  qed
  with m show ?thesis by (simp add: x_step_def Let_def sx_def)
qed

lemma cell1_step_sim:
  assumes H: "acc_sim R" and R: "R s1 s2"
    and 1: "cell1_step L c s1 = Inr s1'"
  shows "\<exists>s2'. cell1_step L c s2 = Inr s2' \<and> R s1' s2'"
proof -
  from 1 obtain a b where
    g: "mv_get (cell1_indices L) c = Inr a" "mv_get (cell1_indices L) (c + 1) = Inr b"
    by (auto simp: cell1_step_def bind_r_eq_Inr Let_def)
  show ?thesis
  proof (cases "b - a > 0")
    case True
    define ny nz where "ny = num_ydivs (mesh1 (dm L))" and "nz = num_zdivs (mesh1 (dm L))"
    from 1 g True obtain ix1 iy1 where
      d: "py_floordiv c (ny * nz) = Inr ix1" "py_floordiv (c - ix1 * ny * nz) nz = Inr iy1"
      by (auto simp: cell1_step_def bind_r_eq_Inr Let_def ny_def nz_def)
    define iz1 where "iz1 = c - ix1 * ny * nz - iy1 * nz"
    define body where "body = x_step L a (b - a) (mv_slice (x1_sorted L) a b)
        (mv_slice (y1_sorted L) a b) (mv_slice (z1_sorted L) a b)
        (iy1 * num_y2_per_y1 L - num_y2_covering_steps L)
        ((iy1 + 1) * num_y2_per_y1 L + num_y2_covering_steps L)
        (iz1 * num_z2_per_z1 L - num_z2_covering_steps L)
        ((iz1 + 1) * num_z2_per_z1 L + num_z2_covering_steps L)"
    define lx rx where "lx = ix1 * num_x2_per_x1 L - num_x2_covering_steps L"
      and "rx = (ix1 + 1) * num_x2_per_x1 L + num_x2_covering_steps L"
    note defs = ny_def nz_def iz1_def lx_def rx_def body_def
    from 1 g True d have r1: "for_each (py_range lx rx) body s1 = Inr s1'"
      by (simp add: cell1_step_def Let_def defs)
    have "\<exists>s2'. for_each (py_range lx rx) body s2 = Inr s2' \<and> R s1' s2'"
    proof (rule for_each_sim[where R = R, OF _ R r1])
      fix i t1 t2 t1'
      assume "R t1 t2" and "body i t1 = Inr t1'"
      then show "\<exists>t2'. body i t2 = Inr t2' \<and> R t1' t2'"
        unfolding body_def by (rule x_step_sim[OF H])
    qed
    with g True d show ?thesis by (simp add: cell1_step_def Let_def defs)
  next
    case False
    with 1 g R show ?thesis by (simp add: cell1_step_def Let_def)
  qed
qed

lemma cells_sim:
  assumes H: "acc_sim R" and R: "R s1 s2"
    and 1: "for_each cells (cell1_step L) s1 = Inr s1'"
  shows "\<exists>s2'. for_each cells (cell1_step L) s2 = Inr s2' \<and> R s1' s2'"
proof (rule for_each_sim[where R = R, OF _ R 1])
  fix i t1 t2 t1'
  assume "R t1 t2" and "cell1_step L i t1 = Inr t1'"
  then show "\<exists>t2'. cell1_step L i t2 = Inr t2' \<and> R t1' t2'"
    by (rule cell1_step_sim[OF H])
qed

text \<open>A run from a state other than zero adds the same amounts.\<close>

lemma tensor_add_assoc: "tensor_add (tensor_add a b) c = tensor_add a (tensor_add b c)"
  by (simp add: tensor_add_def)

lemma tensor_add_zero [simp]: "tensor_add a tensor_zero = a"
  by (cases a) (simp add: tensor_add_def tensor_zero_def)

lemma map2_update:
  "length xs = length ys \<Longrightarrow> (map2 f xs ys)[p := f (xs ! p) v] = map2 f xs (ys[p := v])"
  by (induction xs ys arbitrary: p rule: list_induct2) (auto split: nat.splits)

lemma translated_acc_sim:
  assumes "shape n d"
  shows "acc_sim (translated n d)"
  unfolding acc_sim_def
proof (intro allI impI)
  fix p dx dy dz w s1 s2 s1'
  assume R: "translated n d s1 s2" and 1: "accumulate p dx dy dz w s1 = Inr s1'"
  from 1 have b: "0 \<le> p" "p < int (length (fst s1))" "p < int (length (snd s1))"
    and s1': "s1' = ((fst s1)[nat p := tensor_add (fst s1 ! nat p) (outer3 w dx dy dz)],
                     (snd s1)[nat p := snd s1 ! nat p + w])"
    by (auto simp: accumulate_eq split: if_splits)
  from R assms have l: "length (fst s1) = n" "length (snd s1) = n" "length (fst d) = n"
    "length (snd d) = n" and s2: "s2 = acc_add d s1"
    by (simp_all add: translated_def shape_def)
  from b l have np: "nat p < n" by linarith
  have "accumulate p dx dy dz w s2 = Inr (acc_add d s1')"
    using b l np unfolding s2 s1'
    by (simp add: accumulate_eq acc_add_def tensor_add_assoc add.assoc
          map2_update[symmetric])
  moreover have "translated n d s1' (acc_add d s1')"
    using l by (simp add: translated_def shape_def s1')
  ultimately show "\<exists>s2'. accumulate p dx dy dz w s2 = Inr s2' \<and> translated n d s1' s2'"
    by blast
qed

lemma for_each_append:
  "for_each (xs @ ys) body s = bind_r (for_each xs body s) (for_each ys body)"
  by (induction xs arbitrary: s) (auto simp: bind_r_def split: sum.splits)

lemma py_range_split:
  assumes "a \<le> m" "m \<le> b"
  shows "py_range a b = py_range a m @ py_range m b"
proof (cases "a = m")
  case True
  then show ?thesis by (simp add: py_range_def)
next
  case False
  with assms have "a \<le> m - 1" "m - 1 \<le> b - 1" by simp_all
  from upto_split2[OF this] show ?thesis by (simp add: py_range_def)
qed

lemma np_take_map2:
  assumes "length xs = length ys" "np_take xs ks = Inr as" "np_take ys ks = Inr bs"
  shows "np_take (map2 f xs ys) ks = Inr (map2 f as bs)"
  using assms(2,3)
proof (induction ks arbitrary: as bs)
  case Nil
  then show ?case by simp
next
  case (Cons k ks)
  from Cons.prems(1) obtain a as' where a: "np_index xs k = Inr a" "np_take xs ks = Inr as'"
    "as = a # as'" by (auto simp: bind_r_eq_Inr)
  from Cons.prems(2) obtain b bs' where b: "np_index ys k = Inr b" "np_take ys ks = Inr bs'"
    "bs = b # bs'" by (auto simp: bind_r_eq_Inr)
  have "np_index (map2 f xs ys) k = Inr (f a b)"
    using a(1) b(1) assms(1) by (auto simp: np_index_def Let_def split: if_splits)
  with Cons.IH[OF a(2) b(2)] a(3) b(3) show ?case by simp
qed

lemma unsort_acc_add:
  assumes "shape n s1" "shape n s2" "unsort idx s1 = Inr u1" "unsort idx s2 = Inr u2"
  shows "unsort idx (acc_add s1 s2) = Inr (acc_add u1 u2)"
proof -
  define ks where "ks = unsorting_indices idx"
  from assms(3) obtain T1 W1 where 1: "np_take (snd s1) ks = Inr W1" "np_take (fst s1) ks = Inr T1"
    "u1 = (T1, W1)"
    by (auto simp: unsort_def Let_def bind_r_eq_Inr ks_def)
  from assms(4) obtain T2 W2 where 2: "np_take (snd s2) ks = Inr W2" "np_take (fst s2) ks = Inr T2"
    "u2 = (T2, W2)"
    by (auto simp: unsort_def Let_def bind_r_eq_Inr ks_def)
  from assms(1,2) have l: "length (fst s1) = length (fst s2)" "length (snd s1) = length (snd s2)"
    by (simp_all add: shape_def)
  from np_take_map2[OF l(1) 1(2) 2(2), of tensor_add] np_take_map2[OF l(2) 1(1) 2(1), of "(+)"]
    1(3) 2(3)
  show ?thesis
    by (simp add: unsort_def Let_def acc_add_def ks_def[symmetric])
qed

lemma shape_pair_rel: "pair_rel (\<lambda>s1 s2. shape n s1) rsq rsq A"
  unfolding pair_rel_def
proof (intro allI impI)
  fix p x y z xs ys zs ws j and s1 s2 s1' s2' :: accum
  assume R: "shape n s1"
    and 1: "pair_step rsq p x y z xs ys zs ws j s1 = Inr s1'"
  from 1 show "shape n s1'"
  proof (rule pair_step_cases)
    fix x2 y2 z2 w2
    assume "s1' = s1 \<or> ((x - x2) * (x - x2) + (y - y2) * (y - y2) + (z - z2) * (z - z2) < rsq
              \<and> accumulate p (x - x2) (y - y2) (z - z2) w2 s1 = Inr s1')"
    with R show ?thesis by (auto simp: accumulate_eq shape_def split: if_splits)
  qed
qed

lemma engine_loops_shape:
  assumes "engine_loops L ct = Inr s"
  shows "shape (length (x1_sorted L)) s"
proof -
  have 2: "engine_loops (L\<lparr>rsmooth_squared := rsmooth_squared L\<rparr>) ct = Inr s"
    using assms by simp
  show ?thesis
    by (rule engine_loops_rel[where R = "\<lambda>s1 s2. shape (length (x1_sorted L)) s1",
          OF shape_pair_rel _ assms 2])
       (simp add: shape_def)
qed

lemma acc_add_zero:
  "shape n d \<Longrightarrow> acc_add d (replicate n tensor_zero, replicate n 0) = d"
  by (cases d) (auto simp: acc_add_def shape_def list_eq_iff_nth_eq)

lemma engine_loops_split:
  assumes "a \<le> m" "m \<le> b"
    and A: "engine_loops L (a, m) = Inr sA" and B: "engine_loops L (m, b) = Inr sB"
  shows "engine_loops L (a, b) = Inr (acc_add sA sB)"
proof -
  define n where "n = length (x1_sorted L)"
  define z where "z = (replicate n tensor_zero, replicate n (0::real))"
  from A have a: "for_each (py_range a m) (cell1_step L) z = Inr sA"
    by (simp add: engine_loops_def Let_def z_def n_def)
  from B have b: "for_each (py_range m b) (cell1_step L) z = Inr sB"
    by (simp add: engine_loops_def Let_def z_def n_def)
  have shA: "shape n sA" using engine_loops_shape[OF A] by (simp add: n_def)
  have "translated n sA z (acc_add sA z)"
    by (simp add: translated_def shape_def z_def)
  from cells_sim[OF translated_acc_sim[OF shA] this b]
  have "for_each (py_range m b) (cell1_step L) (acc_add sA z) = Inr (acc_add sA sB)"
    by (auto simp: translated_def)
  moreover have "acc_add sA z = sA" unfolding z_def by (rule acc_add_zero[OF shA])
  ultimately show ?thesis
    using a by (simp add: engine_loops_def Let_def py_range_split[OF assms(1,2)] for_each_append
          z_def[symmetric] n_def[symmetric])
qed

subsection \<open>The engine computes the pairwise sum on well-formed meshes\<close>

lemma tensor_slot_add:
  "tensor_slot (tensor_add a b) q = tensor_slot a q + tensor_slot b q"
  by (simp add: tensor_slot_def tensor_add_def)

lemma adds_refl: "shape n s \<Longrightarrow> adds n (\<lambda>p q. 0) s s"
  by (simp add: adds_def)

lemma adds_trans:
  "adds n f s s' \<Longrightarrow> adds n g s' s'' \<Longrightarrow> adds n (\<lambda>p q. f p q + g p q) s s''"
  by (simp add: adds_def)

lemma adds_cong: "adds n f s s' \<Longrightarrow> (\<And>p q. p < n \<Longrightarrow> f p q = g p q) \<Longrightarrow> adds n g s s'"
  by (simp add: adds_def)

lemma adds_shape: "adds n f s s' \<Longrightarrow> shape n s'"
  by (simp add: adds_def)

lemma accumulate_adds:
  assumes "shape n s" "0 \<le> p" "nat p < n"
  shows "\<exists>s'. accumulate p dx dy dz w s = Inr s'
           \<and> adds n (\<lambda>p' q. if p' = nat p then pair_slot w dx dy dz q else 0) s s'"
  using assms
  by (auto simp: accumulate_eq adds_def shape_def slot_def pair_slot_def nth_list_update
        tensor_slot_add)

lemma for_each_adds:
  assumes "\<And>i s. i \<in> set xs \<Longrightarrow> shape n s \<Longrightarrow> \<exists>s'. body i s = Inr s' \<and> adds n (f i) s s'"
    and "shape n s"
  shows "\<exists>s'. for_each xs body s = Inr s' \<and> adds n (\<lambda>p q. \<Sum>i\<leftarrow>xs. f i p q) s s'"
  using assms
proof (induction xs arbitrary: s)
  case Nil
  then show ?case by (simp add: adds_refl)
next
  case (Cons i rest)
  from Cons.prems(1)[of i s] Cons.prems(2) obtain u where
    u: "body i s = Inr u" "adds n (f i) s u" by auto
  have "\<exists>t'. body j t = Inr t' \<and> adds n (f j) t t'" if "j \<in> set rest" "shape n t" for j t
    using Cons.prems(1)[of j t] that by simp
  from Cons.IH[OF this adds_shape[OF u(2)]] obtain s' where
    s': "for_each rest body u = Inr s'" "adds n (\<lambda>p q. \<Sum>i\<leftarrow>rest. f i p q) u s'"
    by blast
  from adds_trans[OF u(2) s'(2)] u(1) s'(1) show ?case by simp
qed

lemma sum_list_upto: "(\<Sum>i\<leftarrow>[a..b]. f i) = (\<Sum>i = a..b. f i)"
  by (simp add: interv_sum_list_conv_sum_set_int)

lemma sum_list_py_range: "(\<Sum>i\<leftarrow>py_range a b. f i) = (\<Sum>i \<in> {a..<b}. f i)"
proof -
  have "{a..b - 1} = {a..<b}" by auto
  then show ?thesis by (simp add: py_range_def sum_list_upto)
qed

lemma for_each_range_adds:
  assumes "\<And>i s. a \<le> i \<Longrightarrow> i < b \<Longrightarrow> shape n s
             \<Longrightarrow> \<exists>s'. body i s = Inr s' \<and> adds n (f i) s s'"
    and "shape n s"
  shows "\<exists>s'. for_each (py_range a b) body s = Inr s'
           \<and> adds n (\<lambda>p q. \<Sum>i \<in> {a..<b}. f i p q) s s'"
proof -
  have "\<exists>s'. body i s = Inr s' \<and> adds n (f i) s s'" if "i \<in> set (py_range a b)" "shape n s"
    for i s
    using assms(1)[of i s] that by (simp add: py_range_def)
  from for_each_adds[of "py_range a b" n body f, OF this assms(2)]
  show ?thesis by (simp add: sum_list_py_range)
qed

lemma pair_step_adds:
  assumes "shape n s" "0 \<le> p" "nat p < n" "0 \<le> j" "nat j < length xs"
    "length ys = length xs" "length zs = length xs" "length ws = length xs"
  shows "\<exists>s'. pair_step rsq p x y z xs ys zs ws j s = Inr s'
           \<and> adds n (\<lambda>p' q. if p' = nat p
                 then (if (x - xs ! nat j) * (x - xs ! nat j) + (y - ys ! nat j) * (y - ys ! nat j)
                          + (z - zs ! nat j) * (z - zs ! nat j) < rsq
                       then pair_slot (ws ! nat j) (x - xs ! nat j) (y - ys ! nat j) (z - zs ! nat j) q
                       else 0)
                 else 0) s s'"
proof -
  from assms(4-8) have g: "mv_get xs j = Inr (xs ! nat j)" "mv_get ys j = Inr (ys ! nat j)"
    "mv_get zs j = Inr (zs ! nat j)" "mv_get ws j = Inr (ws ! nat j)"
    by (simp_all add: mv_get_def nat_less_iff)
  define c where "c \<longleftrightarrow> (x - xs ! nat j) * (x - xs ! nat j) + (y - ys ! nat j) * (y - ys ! nat j)
                  + (z - zs ! nat j) * (z - zs ! nat j) < rsq"
  define v where "v = pair_slot (ws ! nat j) (x - xs ! nat j) (y - ys ! nat j) (z - zs ! nat j)"
  have e: "pair_step rsq p x y z xs ys zs ws j s
           = (if c then accumulate p (x - xs ! nat j) (y - ys ! nat j) (z - zs ! nat j)
                          (ws ! nat j) s
              else Inr s)"
    using g by (simp add: pair_step_def Let_def c_def)
  have "\<exists>s'. pair_step rsq p x y z xs ys zs ws j s = Inr s'
           \<and> adds n (\<lambda>p' q. if p' = nat p then (if c then v q else 0) else 0) s s'"
  proof (cases c)
    case True
    from accumulate_adds[OF assms(1-3), of "x - xs ! nat j" "y - ys ! nat j" "z - zs ! nat j"
        "ws ! nat j"]
    obtain s' where a: "accumulate p (x - xs ! nat j) (y - ys ! nat j) (z - zs ! nat j)
                          (ws ! nat j) s = Inr s'"
      and b: "adds n (\<lambda>p' q. if p' = nat p then v q else 0) s s'"
      unfolding v_def by blast
    from b have "adds n (\<lambda>p' q. if p' = nat p then (if c then v q else 0) else 0) s s'"
      by (rule adds_cong) (simp add: True)
    with a True show ?thesis unfolding e by auto
  next
    case False
    from adds_refl[OF assms(1)]
    have "adds n (\<lambda>p' q. if p' = nat p then (if c then v q else 0) else 0) s s"
      by (rule adds_cong) (simp add: False)
    with False show ?thesis unfolding e by auto
  qed
  then show ?thesis unfolding c_def v_def .
qed

lemma sum_if_const:
  "(\<Sum>i \<in> A. if c then f i else 0) = (if c then (\<Sum>i \<in> A. f i) else (0::real))"
  by simp

lemma point_step_adds:
  assumes "shape n s" "0 \<le> i" "nat i < length xs1" "length ys1 = length xs1"
    "length zs1 = length xs1" "0 \<le> ifirst1 + i" "nat (ifirst1 + i) < n"
    "Nj \<le> int (length xs)" "length ys = length xs" "length zs = length xs"
    "length ws = length xs"
  shows "\<exists>s'. point_step rsq ifirst1 xs1 ys1 zs1 sx sy sz xs ys zs ws Nj i s = Inr s'
           \<and> adds n (\<lambda>p' q. if p' = nat (ifirst1 + i)
                 then (\<Sum>j \<in> {0..<Nj}.
                        if (xs1 ! nat i - sx - xs ! nat j) * (xs1 ! nat i - sx - xs ! nat j)
                           + (ys1 ! nat i - sy - ys ! nat j) * (ys1 ! nat i - sy - ys ! nat j)
                           + (zs1 ! nat i - sz - zs ! nat j) * (zs1 ! nat i - sz - zs ! nat j) < rsq
                        then pair_slot (ws ! nat j) (xs1 ! nat i - sx - xs ! nat j)
                               (ys1 ! nat i - sy - ys ! nat j) (zs1 ! nat i - sz - zs ! nat j) q
                        else 0)
                 else 0) s s'"
proof -
  from assms(2-5) have g: "mv_get xs1 i = Inr (xs1 ! nat i)" "mv_get ys1 i = Inr (ys1 ! nat i)"
    "mv_get zs1 i = Inr (zs1 ! nat i)"
    by (simp_all add: mv_get_def nat_less_iff)
  define x y z where "x = xs1 ! nat i - sx" and "y = ys1 ! nat i - sy" and "z = zs1 ! nat i - sz"
  have "\<exists>s'. pair_step rsq (ifirst1 + i) x y z xs ys zs ws j t = Inr s'
           \<and> adds n (\<lambda>p' q. if p' = nat (ifirst1 + i)
                 then (if (x - xs ! nat j) * (x - xs ! nat j) + (y - ys ! nat j) * (y - ys ! nat j)
                          + (z - zs ! nat j) * (z - zs ! nat j) < rsq
                       then pair_slot (ws ! nat j) (x - xs ! nat j) (y - ys ! nat j) (z - zs ! nat j) q
                       else 0)
                 else 0) t s'"
    if "0 \<le> j" "j < Nj" "shape n t" for j t
  proof (rule pair_step_adds[OF that(3) assms(6,7) that(1) _ assms(9-11)])
    from that assms(8) show "nat j < length xs" by linarith
  qed
  from for_each_range_adds[of 0 Nj n "pair_step rsq (ifirst1 + i) x y z xs ys zs ws", OF this assms(1)]
  obtain s' where s': "for_each (py_range 0 Nj) (pair_step rsq (ifirst1 + i) x y z xs ys zs ws) s
                         = Inr s'"
    and a: "adds n (\<lambda>p q. \<Sum>j \<in> {0..<Nj}. if p = nat (ifirst1 + i)
                 then (if (x - xs ! nat j) * (x - xs ! nat j) + (y - ys ! nat j) * (y - ys ! nat j)
                          + (z - zs ! nat j) * (z - zs ! nat j) < rsq
                       then pair_slot (ws ! nat j) (x - xs ! nat j) (y - ys ! nat j) (z - zs ! nat j) q
                       else 0)
                 else 0) s s'"
    by blast
  have "point_step rsq ifirst1 xs1 ys1 zs1 sx sy sz xs ys zs ws Nj i s = Inr s'"
    using g s' by (simp add: point_step_def Let_def x_def y_def z_def)
  moreover from a have "adds n (\<lambda>p' q. if p' = nat (ifirst1 + i)
                 then (\<Sum>j \<in> {0..<Nj}.
                        if (x - xs ! nat j) * (x - xs ! nat j) + (y - ys ! nat j) * (y - ys ! nat j)
                          + (z - zs ! nat j) * (z - zs ! nat j) < rsq
                        then pair_slot (ws ! nat j) (x - xs ! nat j) (y - ys ! nat j) (z - zs ! nat j) q
                        else 0)
                 else 0) s s'"
    by (rule adds_cong) simp
  ultimately show ?thesis unfolding x_def y_def z_def by blast
qed

lemma mv_slice_length:
  assumes "0 \<le> a" "a \<le> b" "b \<le> int (length xs)"
  shows "length (mv_slice xs a b) = nat (b - a)"
  using assms by (simp add: mv_slice_def Let_def min_def) linarith

lemma mv_slice_nth:
  assumes "0 \<le> a" "a \<le> b" "b \<le> int (length xs)" "i < nat (b - a)"
  shows "mv_slice xs a b ! i = xs ! (nat a + i)"
  using assms by (simp add: mv_slice_def Let_def min_def)

lemma flat_index_bounds:
  fixes nx ny nz ix iy iz :: int
  assumes "0 \<le> ix" "ix < nx" "0 \<le> iy" "iy < ny" "0 \<le> iz" "iz < nz"
  shows "0 \<le> ix * (ny * nz) + iy * nz + iz" and "ix * (ny * nz) + iy * nz + iz < nx * ny * nz"
proof -
  from assms show "0 \<le> ix * (ny * nz) + iy * nz + iz" by simp
  have "iy * nz + iz \<le> (ny - 1) * nz + (nz - 1)"
    using assms by (intro add_mono mult_right_mono) simp_all
  also have "\<dots> = ny * nz - 1" by (simp add: algebra_simps)
  finally have 1: "iy * nz + iz < ny * nz" by simp
  have "ix * (ny * nz) \<le> (nx - 1) * (ny * nz)"
    using assms by (intro mult_right_mono) simp_all
  with 1 have "ix * (ny * nz) + iy * nz + iz < (nx - 1) * (ny * nz) + ny * nz" by linarith
  also have "\<dots> = nx * ny * nz" by (simp add: algebra_simps)
  finally show "ix * (ny * nz) + iy * nz + iz < nx * ny * nz" .
qed

lemma cell2_id_bounds:
  assumes "locals_ok L" "0 \<le> ix2" "ix2 < num_xdivs (mesh2 (dm L))"
    "0 \<le> iy2" "iy2 < num_ydivs (mesh2 (dm L))" "0 \<le> iz2" "iz2 < num_zdivs (mesh2 (dm L))"
  shows "0 \<le> cell2_id L ix2 iy2 iz2"
    and "nat (cell2_id L ix2 iy2 iz2 + 1) < length (cell2_indices L)"
proof -
  note b = flat_index_bounds[OF assms(2-7)]
  from b(1) show "0 \<le> cell2_id L ix2 iy2 iz2" by (simp add: cell2_id_def)
  from b assms(1) show "nat (cell2_id L ix2 iy2 iz2 + 1) < length (cell2_indices L)"
    unfolding cell2_id_def locals_ok_def by linarith
qed

lemma cell_pair_adds:
  assumes ok: "locals_ok L" and sh: "shape (length (x1_sorted L)) s"
    and a1: "0 \<le> a1" "0 \<le> Ni" "a1 + Ni \<le> int (length (x1_sorted L))"
    and sl: "xs1 = mv_slice (x1_sorted L) a1 (a1 + Ni)" "ys1 = mv_slice (y1_sorted L) a1 (a1 + Ni)"
      "zs1 = mv_slice (z1_sorted L) a1 (a1 + Ni)"
    and c: "0 \<le> ix2" "ix2 < num_xdivs (mesh2 (dm L))"
      "0 \<le> iy2" "iy2 < num_ydivs (mesh2 (dm L))" "0 \<le> iz2" "iz2 < num_zdivs (mesh2 (dm L))"
  shows "\<exists>s'. cell_pair L a1 Ni xs1 ys1 zs1 ix2 iy2 iz2 sx sy sz s = Inr s'
           \<and> adds (length (x1_sorted L))
                (\<lambda>p q. if a1 \<le> int p \<and> int p < a1 + Ni
                        then cell2_term L (cell2_id L ix2 iy2 iz2) sx sy sz p q else 0) s s'"
proof -
  define n where "n = length (x1_sorted L)"
  define n2 where "n2 = length (x2_sorted L)"
  define c2 where "c2 = cell2_id L ix2 iy2 iz2"
  define a2 b2 where "a2 = cell2_indices L ! nat c2" and "b2 = cell2_indices L ! nat (c2 + 1)"
  note cb = cell2_id_bounds[OF ok c, folded c2_def]
  from ok have len1: "length (y1_sorted L) = n" "length (z1_sorted L) = n"
    and len2: "length (y2_sorted L) = n2" "length (z2_sorted L) = n2" "length (w2_sorted L) = n2"
    and vals: "\<And>v. v \<in> set (cell2_indices L) \<Longrightarrow> 0 \<le> v \<and> v \<le> int n2"
    by (simp_all add: locals_ok_def n_def n2_def)
  from cb have in1: "nat c2 < length (cell2_indices L)" by linarith
  have ab: "0 \<le> a2" "a2 \<le> int n2" "0 \<le> b2" "b2 \<le> int n2"
    using vals[OF nth_mem[OF in1]] vals[OF nth_mem[OF cb(2)]] by (simp_all add: a2_def b2_def)
  have g: "mv_get (cell2_indices L) c2 = Inr a2" "mv_get (cell2_indices L) (c2 + 1) = Inr b2"
    using cb in1 by (simp_all add: mv_get_def a2_def b2_def nat_less_iff)
  have l1: "length xs1 = nat Ni" "length ys1 = nat Ni" "length zs1 = nat Ni"
    using a1 len1 by (simp_all add: sl n_def mv_slice_length)
  show ?thesis
  proof (cases "b2 - a2 > 0")
    case False
    have e: "cell_pair L a1 Ni xs1 ys1 zs1 ix2 iy2 iz2 sx sy sz s = Inr s"
      using g False by (simp add: cell_pair_def Let_def cell2_id_def[symmetric] c2_def[symmetric])
    from False have "{a2..<b2} = {}" by simp
    then have z: "cell2_term L c2 sx sy sz p q = 0" for p q
      by (simp add: cell2_term_def a2_def[symmetric] b2_def[symmetric])
    from adds_refl[OF sh] have "adds n (\<lambda>p q. if a1 \<le> int p \<and> int p < a1 + Ni
                        then cell2_term L c2 sx sy sz p q else 0) s s"
      unfolding n_def by (rule adds_cong) (simp add: z)
    with e show ?thesis unfolding n_def c2_def by blast
  next
    case True
    define xs ys zs ws where "xs = mv_slice (x2_sorted L) a2 b2"
      and "ys = mv_slice (y2_sorted L) a2 b2" and "zs = mv_slice (z2_sorted L) a2 b2"
      and "ws = mv_slice (w2_sorted L) a2 b2"
    from True ab len2 have l2: "length xs = nat (b2 - a2)" "length ys = nat (b2 - a2)"
      "length zs = nat (b2 - a2)" "length ws = nat (b2 - a2)"
      by (simp_all add: xs_def ys_def zs_def ws_def mv_slice_length n2_def)
    define f where "f = (\<lambda>(i::int) p' q. if p' = nat (a1 + i)
                 then (\<Sum>j \<in> {0..<b2 - a2}.
                        if (xs1 ! nat i - sx - xs ! nat j) * (xs1 ! nat i - sx - xs ! nat j)
                           + (ys1 ! nat i - sy - ys ! nat j) * (ys1 ! nat i - sy - ys ! nat j)
                           + (zs1 ! nat i - sz - zs ! nat j) * (zs1 ! nat i - sz - zs ! nat j)
                             < rsmooth_squared L
                        then pair_slot (ws ! nat j) (xs1 ! nat i - sx - xs ! nat j)
                               (ys1 ! nat i - sy - ys ! nat j) (zs1 ! nat i - sz - zs ! nat j) q
                        else 0)
                 else 0)"
    have step: "\<exists>s'. point_step (rsmooth_squared L) a1 xs1 ys1 zs1 sx sy sz xs ys zs ws (b2 - a2) i t
                   = Inr s' \<and> adds n (f i) t s'"
      if "0 \<le> i" "i < Ni" "shape n t" for i t
      unfolding f_def
    proof (rule point_step_adds[OF that(3) that(1)])
      from that l1 show "nat i < length xs1" by linarith
      from l1 show "length ys1 = length xs1" "length zs1 = length xs1" by simp_all
      from that a1 show "0 \<le> a1 + i" by simp
      from that a1 show "nat (a1 + i) < n" unfolding n_def by linarith
      from l2 True show "b2 - a2 \<le> int (length xs)" by simp
      from l2 show "length ys = length xs" "length zs = length xs" "length ws = length xs"
        by simp_all
    qed
    from for_each_range_adds[of 0 Ni n _ f, OF step] sh obtain s' where
      s': "for_each (py_range 0 Ni)
             (point_step (rsmooth_squared L) a1 xs1 ys1 zs1 sx sy sz xs ys zs ws (b2 - a2)) s = Inr s'"
      and ad: "adds n (\<lambda>p q. \<Sum>i \<in> {0..<Ni}. f i p q) s s'"
      unfolding n_def by blast
    have e: "cell_pair L a1 Ni xs1 ys1 zs1 ix2 iy2 iz2 sx sy sz s = Inr s'"
      using g True s'
      by (simp add: cell_pair_def Let_def cell2_id_def[symmetric] c2_def[symmetric]
            xs_def ys_def zs_def ws_def)
    have eq: "(\<Sum>i \<in> {0..<Ni}. f i p q)
              = (if a1 \<le> int p \<and> int p < a1 + Ni then cell2_term L c2 sx sy sz p q else 0)"
      if "p < n" for p q
    proof (cases "a1 \<le> int p \<and> int p < a1 + Ni")
      case False
      have "f i p q = 0" if "i \<in> {0..<Ni}" for i
      proof -
        have "p \<noteq> nat (a1 + i)"
        proof
          assume "p = nat (a1 + i)"
          then have "int p = a1 + i" using that a1 by simp
          with that False show False by simp
        qed
        then show ?thesis by (simp add: f_def)
      qed
      then have "(\<Sum>i \<in> {0..<Ni}. f i p q) = 0" by simp
      with False show ?thesis by auto
    next
      case inr: True
      define i0 where "i0 = int p - a1"
      from inr have i0: "0 \<le> i0" "i0 < Ni" "nat (a1 + i0) = p" "nat a1 + nat i0 = p"
        using a1 by (simp_all add: i0_def) linarith
      have other: "f i p q = 0" if "i \<in> {0..<Ni}" "i \<noteq> i0" for i
        using that a1 by (auto simp: f_def i0_def)
      have single: "(\<Sum>i \<in> {0..<Ni}. f i p q) = f i0 p q"
      proof -
        have "(\<Sum>i \<in> {0..<Ni}. f i p q) = (\<Sum>i \<in> {i0}. f i p q)"
          by (rule sum.mono_neutral_right) (use i0 other in auto)
        then show ?thesis by simp
      qed
      have x1: "xs1 ! nat i0 = x1_sorted L ! p" "ys1 ! nat i0 = y1_sorted L ! p"
        "zs1 ! nat i0 = z1_sorted L ! p"
        using a1 len1 i0 by (simp_all add: sl n_def mv_slice_nth)
      have x2: "xs ! nat j = x2_sorted L ! nat (a2 + j)" "ys ! nat j = y2_sorted L ! nat (a2 + j)"
        "zs ! nat j = z2_sorted L ! nat (a2 + j)" "ws ! nat j = w2_sorted L ! nat (a2 + j)"
        if "j \<in> {0..<b2 - a2}" for j
        using that ab len2 True
        by (simp_all add: xs_def ys_def zs_def ws_def n2_def mv_slice_nth nat_add_distrib)
      have "f i0 p q = (\<Sum>j \<in> {0..<b2 - a2}.
                        if (xs1 ! nat i0 - sx - xs ! nat j) * (xs1 ! nat i0 - sx - xs ! nat j)
                           + (ys1 ! nat i0 - sy - ys ! nat j) * (ys1 ! nat i0 - sy - ys ! nat j)
                           + (zs1 ! nat i0 - sz - zs ! nat j) * (zs1 ! nat i0 - sz - zs ! nat j)
                             < rsmooth_squared L
                        then pair_slot (ws ! nat j) (xs1 ! nat i0 - sx - xs ! nat j)
                               (ys1 ! nat i0 - sy - ys ! nat j) (zs1 ! nat i0 - sz - zs ! nat j) q
                        else 0)"
        unfolding f_def using i0(3) by simp
      also have "\<dots> = (\<Sum>j \<in> {0..<b2 - a2}. pair_term L p (nat (a2 + j)) sx sy sz q)"
      proof (rule sum.cong[OF refl])
        fix j assume "j \<in> {0..<b2 - a2}"
        from x2[OF this] show "(if (xs1 ! nat i0 - sx - xs ! nat j) * (xs1 ! nat i0 - sx - xs ! nat j)
                           + (ys1 ! nat i0 - sy - ys ! nat j) * (ys1 ! nat i0 - sy - ys ! nat j)
                           + (zs1 ! nat i0 - sz - zs ! nat j) * (zs1 ! nat i0 - sz - zs ! nat j)
                             < rsmooth_squared L
                        then pair_slot (ws ! nat j) (xs1 ! nat i0 - sx - xs ! nat j)
                               (ys1 ! nat i0 - sy - ys ! nat j) (zs1 ! nat i0 - sz - zs ! nat j) q
                        else 0) = pair_term L p (nat (a2 + j)) sx sy sz q"
          unfolding pair_term_def Let_def x1 by simp
      qed
      also have "\<dots> = (\<Sum>j \<in> {a2..<b2}. pair_term L p (nat j) sx sy sz q)"
        by (rule sum.reindex_bij_witness[of _ "\<lambda>j. j - a2" "\<lambda>j. a2 + j"]) auto
      finally have "f i0 p q = cell2_term L c2 sx sy sz p q"
        by (simp add: cell2_term_def a2_def b2_def)
      with single inr show ?thesis by simp
    qed
    from ad have "adds n (\<lambda>p q. if a1 \<le> int p \<and> int p < a1 + Ni
                        then cell2_term L c2 sx sy sz p q else 0) s s'"
      by (rule adds_cong) (rule eq)
    with e show ?thesis unfolding n_def c2_def by blast
  qed
qed

lemma mod_bounds:
  fixes k n :: int
  assumes "0 < n"
  shows "0 \<le> k mod n" "k mod n < n"
  using assms by simp_all

lemma z_step_adds:
  assumes ok: "locals_ok L" and sh: "shape (length (x1_sorted L)) s"
    and a1: "0 \<le> a1" "0 \<le> Ni" "a1 + Ni \<le> int (length (x1_sorted L))"
    and sl: "xs1 = mv_slice (x1_sorted L) a1 (a1 + Ni)" "ys1 = mv_slice (y1_sorted L) a1 (a1 + Ni)"
      "zs1 = mv_slice (z1_sorted L) a1 (a1 + Ni)"
  shows "\<exists>s'. z_step L a1 Ni xs1 ys1 zs1 (kx mod num_xdivs (mesh2 (dm L))) (x_shift L kx)
                 (ky mod num_ydivs (mesh2 (dm L))) (y_shift L ky) kz s = Inr s'
           \<and> adds (length (x1_sorted L))
                (\<lambda>p q. if a1 \<le> int p \<and> int p < a1 + Ni then visit_term L kx ky kz p q else 0)
                s s'"
proof -
  from ok have n: "0 < num_xdivs (mesh2 (dm L))" "0 < num_ydivs (mesh2 (dm L))"
    "0 < num_zdivs (mesh2 (dm L))"
    by (simp_all add: locals_ok_def)
  from cell_pair_adds[OF ok sh a1 sl mod_bounds[OF n(1)] mod_bounds[OF n(2)] mod_bounds[OF n(3)],
      of kx ky kz "x_shift L kx" "y_shift L ky" "z_shift L kz"] n(3)
  show ?thesis
    unfolding visit_term_def by (simp add: z_step_def Let_def py_mod_def z_shift_def)
qed

lemma y_step_adds:
  assumes ok: "locals_ok L" and sh: "shape (length (x1_sorted L)) s"
    and a1: "0 \<le> a1" "0 \<le> Ni" "a1 + Ni \<le> int (length (x1_sorted L))"
    and sl: "xs1 = mv_slice (x1_sorted L) a1 (a1 + Ni)" "ys1 = mv_slice (y1_sorted L) a1 (a1 + Ni)"
      "zs1 = mv_slice (z1_sorted L) a1 (a1 + Ni)"
  shows "\<exists>s'. y_step L a1 Ni xs1 ys1 zs1 lz rz (kx mod num_xdivs (mesh2 (dm L))) (x_shift L kx)
                 ky s = Inr s'
           \<and> adds (length (x1_sorted L))
                (\<lambda>p q. if a1 \<le> int p \<and> int p < a1 + Ni
                        then (\<Sum>kz \<in> {lz..<rz}. visit_term L kx ky kz p q) else 0)
                s s'"
proof -
  define n where "n = length (x1_sorted L)"
  from ok have ny: "0 < num_ydivs (mesh2 (dm L))" by (simp add: locals_ok_def)
  define body where "body = z_step L a1 Ni xs1 ys1 zs1 (kx mod num_xdivs (mesh2 (dm L)))
                 (x_shift L kx) (ky mod num_ydivs (mesh2 (dm L))) (y_shift L ky)"
  have "\<exists>s'. body kz t = Inr s'
           \<and> adds n (\<lambda>p q. if a1 \<le> int p \<and> int p < a1 + Ni
                            then visit_term L kx ky kz p q else 0) t s'"
    if "shape n t" for kz t
    unfolding body_def n_def by (rule z_step_adds[OF ok that[unfolded n_def] a1 sl])
  from for_each_range_adds[of lz rz n body, OF this] sh obtain s' where
    s': "for_each (py_range lz rz) body s = Inr s'"
    and ad: "adds n (\<lambda>p q. \<Sum>kz \<in> {lz..<rz}. if a1 \<le> int p \<and> int p < a1 + Ni
                            then visit_term L kx ky kz p q else 0) s s'"
    unfolding n_def by blast
  have e: "y_step L a1 Ni xs1 ys1 zs1 lz rz (kx mod num_xdivs (mesh2 (dm L))) (x_shift L kx)
             ky s = Inr s'"
    using s' ny by (simp add: y_step_def Let_def py_mod_def body_def y_shift_def)
  from ad have "adds n (\<lambda>p q. if a1 \<le> int p \<and> int p < a1 + Ni
                        then (\<Sum>kz \<in> {lz..<rz}. visit_term L kx ky kz p q) else 0) s s'"
    by (rule adds_cong) (simp add: sum_if_const)
  with e show ?thesis unfolding n_def by blast
qed

lemma x_step_adds:
  assumes ok: "locals_ok L" and sh: "shape (length (x1_sorted L)) s"
    and a1: "0 \<le> a1" "0 \<le> Ni" "a1 + Ni \<le> int (length (x1_sorted L))"
    and sl: "xs1 = mv_slice (x1_sorted L) a1 (a1 + Ni)" "ys1 = mv_slice (y1_sorted L) a1 (a1 + Ni)"
      "zs1 = mv_slice (z1_sorted L) a1 (a1 + Ni)"
  shows "\<exists>s'. x_step L a1 Ni xs1 ys1 zs1 ly ry lz rz kx s = Inr s'
           \<and> adds (length (x1_sorted L))
                (\<lambda>p q. if a1 \<le> int p \<and> int p < a1 + Ni
                        then (\<Sum>ky \<in> {ly..<ry}. \<Sum>kz \<in> {lz..<rz}. visit_term L kx ky kz p q)
                        else 0)
                s s'"
proof -
  define n where "n = length (x1_sorted L)"
  from ok have nx: "0 < num_xdivs (mesh2 (dm L))" by (simp add: locals_ok_def)
  define body where "body = y_step L a1 Ni xs1 ys1 zs1 lz rz (kx mod num_xdivs (mesh2 (dm L)))
                 (x_shift L kx)"
  have "\<exists>s'. body ky t = Inr s'
           \<and> adds n (\<lambda>p q. if a1 \<le> int p \<and> int p < a1 + Ni
                        then (\<Sum>kz \<in> {lz..<rz}. visit_term L kx ky kz p q) else 0) t s'"
    if "shape n t" for ky t
    unfolding body_def n_def by (rule y_step_adds[OF ok that[unfolded n_def] a1 sl])
  from for_each_range_adds[of ly ry n body, OF this] sh obtain s' where
    s': "for_each (py_range ly ry) body s = Inr s'"
    and ad: "adds n (\<lambda>p q. \<Sum>ky \<in> {ly..<ry}. if a1 \<le> int p \<and> int p < a1 + Ni
                        then (\<Sum>kz \<in> {lz..<rz}. visit_term L kx ky kz p q) else 0) s s'"
    unfolding n_def by blast
  have e: "x_step L a1 Ni xs1 ys1 zs1 ly ry lz rz kx s = Inr s'"
    using s' nx by (simp add: x_step_def Let_def py_mod_def body_def x_shift_def)
  from ad have "adds n (\<lambda>p q. if a1 \<le> int p \<and> int p < a1 + Ni
                        then (\<Sum>ky \<in> {ly..<ry}. \<Sum>kz \<in> {lz..<rz}. visit_term L kx ky kz p q)
                        else 0) s s'"
    by (rule adds_cong) (simp add: sum_if_const)
  with e show ?thesis unfolding n_def by blast
qed

lemma cell1_step_adds:
  assumes ok: "locals_ok L" and sh: "shape (length (x1_sorted L)) s"
    and c: "0 \<le> c" "nat (c + 1) < length (cell1_indices L)"
  shows "\<exists>s'. cell1_step L c s = Inr s' \<and> adds (length (x1_sorted L)) (cell1_term L c) s s'"
proof -
  define n where "n = length (x1_sorted L)"
  define a1 b1 where "a1 = cell1_indices L ! nat c" and "b1 = cell1_indices L ! nat (c + 1)"
  from c have in1: "nat c < length (cell1_indices L)" by linarith
  from ok have vals: "\<And>v. v \<in> set (cell1_indices L) \<Longrightarrow> 0 \<le> v \<and> v \<le> int n"
    and nz: "0 < num_ydivs (mesh1 (dm L))" "0 < num_zdivs (mesh1 (dm L))"
    by (simp_all add: locals_ok_def n_def)
  have ab: "0 \<le> a1" "a1 \<le> int n" "0 \<le> b1" "b1 \<le> int n"
    using vals[OF nth_mem[OF in1]] vals[OF nth_mem[OF c(2)]] by (simp_all add: a1_def b1_def)
  have g: "mv_get (cell1_indices L) c = Inr a1" "mv_get (cell1_indices L) (c + 1) = Inr b1"
    using c in1 by (simp_all add: mv_get_def a1_def b1_def nat_less_iff)
  show ?thesis
  proof (cases "b1 - a1 > 0")
    case False
    have e: "cell1_step L c s = Inr s"
      using g False by (simp add: cell1_step_def Let_def)
    from adds_refl[OF sh] have "adds n (cell1_term L c) s s"
      unfolding n_def by (rule adds_cong) (use False in \<open>simp add: cell1_term_def a1_def b1_def\<close>)
    with e show ?thesis unfolding n_def by blast
  next
    case True
    define ix1 iy1 iz1 where "ix1 = cell1_x L c" and "iy1 = cell1_y L c" and "iz1 = cell1_z L c"
    define body where "body = x_step L a1 (b1 - a1) (mv_slice (x1_sorted L) a1 b1)
        (mv_slice (y1_sorted L) a1 b1) (mv_slice (z1_sorted L) a1 b1)
        (iy1 * num_y2_per_y1 L - num_y2_covering_steps L)
        ((iy1 + 1) * num_y2_per_y1 L + num_y2_covering_steps L)
        (iz1 * num_z2_per_z1 L - num_z2_covering_steps L)
        ((iz1 + 1) * num_z2_per_z1 L + num_z2_covering_steps L)"
    have "\<exists>s'. body kx t = Inr s'
           \<and> adds n (\<lambda>p q. if a1 \<le> int p \<and> int p < a1 + (b1 - a1)
                        then (\<Sum>ky \<in> y_window L iy1. \<Sum>kz \<in> z_window L iz1.
                                visit_term L kx ky kz p q)
                        else 0) t s'"
      if "shape n t" for kx t
      unfolding body_def n_def y_window_def z_window_def
    proof (rule x_step_adds[OF ok that[unfolded n_def]])
      from ab True show "0 \<le> a1" "0 \<le> b1 - a1" "a1 + (b1 - a1) \<le> int (length (x1_sorted L))"
        by (simp_all add: n_def)
    qed simp_all
    from for_each_range_adds[of "ix1 * num_x2_per_x1 L - num_x2_covering_steps L"
        "(ix1 + 1) * num_x2_per_x1 L + num_x2_covering_steps L" n body, OF this] sh
    obtain s' where
      s': "for_each (py_range (ix1 * num_x2_per_x1 L - num_x2_covering_steps L)
              ((ix1 + 1) * num_x2_per_x1 L + num_x2_covering_steps L)) body s = Inr s'"
      and ad: "adds n (\<lambda>p q. \<Sum>kx \<in> x_window L ix1. if a1 \<le> int p \<and> int p < a1 + (b1 - a1)
                        then (\<Sum>ky \<in> y_window L iy1. \<Sum>kz \<in> z_window L iz1.
                                visit_term L kx ky kz p q)
                        else 0) s s'"
      unfolding n_def x_window_def by blast
    have e: "cell1_step L c s = Inr s'"
      using g True s' nz
      by (simp add: cell1_step_def Let_def py_floordiv_def body_def ix1_def iy1_def iz1_def
            cell1_x_def cell1_y_def cell1_z_def)
    from ad have "adds n (cell1_term L c) s s'"
      unfolding cell1_term_def window_term_def
      by (rule adds_cong) (simp add: sum_if_const a1_def b1_def ix1_def iy1_def iz1_def)
    with e show ?thesis unfolding n_def by blast
  qed
qed

lemma engine_loops_adds:
  assumes ok: "locals_ok L" and c: "0 \<le> lo" "nat hi < length (cell1_indices L)"
  shows "\<exists>s'. engine_loops L (lo, hi) = Inr s'
           \<and> adds (length (x1_sorted L)) (\<lambda>p q. \<Sum>c \<in> {lo..<hi}. cell1_term L c p q)
                (replicate (length (x1_sorted L)) tensor_zero, replicate (length (x1_sorted L)) 0)
                s'"
proof -
  define n where "n = length (x1_sorted L)"
  have "\<exists>s'. cell1_step L i t = Inr s' \<and> adds n (cell1_term L i) t s'"
    if "lo \<le> i" "i < hi" "shape n t" for i t
    unfolding n_def
  proof (rule cell1_step_adds[OF ok that(3)[unfolded n_def]])
    from that c show "0 \<le> i" by simp
    from that c show "nat (i + 1) < length (cell1_indices L)" by linarith
  qed
  moreover have "shape n (replicate n tensor_zero, replicate n 0)" by (simp add: shape_def)
  ultimately show ?thesis
    using for_each_range_adds[of lo hi n "cell1_step L" "cell1_term L"
        "(replicate n tensor_zero, replicate n 0)"]
    by (simp add: engine_loops_def Let_def n_def)
qed

lemma sorted_cells_unique:
  fixes ci :: "int list"
  assumes s: "sorted ci" and c0: "c0 + 1 < length ci" and c: "c + 1 < length ci"
    and p0: "ci ! c0 \<le> p" "p < ci ! (c0 + 1)"
  shows "(ci ! c \<le> p \<and> p < ci ! (c + 1)) \<longleftrightarrow> c = c0"
proof
  assume a: "ci ! c \<le> p \<and> p < ci ! (c + 1)"
  show "c = c0"
  proof (rule ccontr)
    assume "c \<noteq> c0"
    then consider "c < c0" | "c0 < c" by linarith
    then show False
    proof cases
      case 1
      then have "ci ! (c + 1) \<le> ci ! c0" using s c0 by (intro sorted_nth_mono) simp_all
      with a p0 show False by simp
    next
      case 2
      then have "ci ! (c0 + 1) \<le> ci ! c" using s c by (intro sorted_nth_mono) simp_all
      with a p0 show False by simp
    qed
  qed
next
  assume "c = c0"
  with p0 show "ci ! c \<le> p \<and> p < ci ! (c + 1)" by simp
qed

lemma flat_decode:
  fixes ix iy iz ny nz :: int
  assumes "0 \<le> iy" "iy < ny" "0 \<le> iz" "iz < nz"
  shows "(ix * (ny * nz) + iy * nz + iz) div (ny * nz) = ix"
    and "(ix * (ny * nz) + iy * nz + iz - ix * ny * nz) div nz = iy"
    and "ix * (ny * nz) + iy * nz + iz - ix * ny * nz - iy * nz = iz"
proof -
  have nz: "0 < nz" and ny: "0 < ny" using assms by simp_all
  have "iy * nz + iz \<le> (ny - 1) * nz + (nz - 1)"
    using assms by (intro add_mono mult_right_mono) simp_all
  then have r: "iy * nz + iz < ny * nz" by (simp add: algebra_simps)
  have r0: "0 \<le> iy * nz + iz" using assms by simp
  have "(ix * (ny * nz) + iy * nz + iz) div (ny * nz) = ((iy * nz + iz) + ix * (ny * nz)) div (ny * nz)"
    by (simp add: algebra_simps)
  also have "\<dots> = (iy * nz + iz) div (ny * nz) + ix"
    using ny nz by (subst div_mult_self1) simp_all
  also have "\<dots> = ix" using r r0 by (simp add: div_pos_pos_trivial)
  finally show "(ix * (ny * nz) + iy * nz + iz) div (ny * nz) = ix" .
  have "(ix * (ny * nz) + iy * nz + iz - ix * ny * nz) div nz = (iz + iy * nz) div nz"
    by (simp add: algebra_simps)
  also have "\<dots> = iz div nz + iy" using nz by (subst div_mult_self1) simp_all
  also have "\<dots> = iy" using assms by (simp add: div_pos_pos_trivial)
  finally show "(ix * (ny * nz) + iy * nz + iz - ix * ny * nz) div nz = iy" .
  show "ix * (ny * nz) + iy * nz + iz - ix * ny * nz - iy * nz = iz"
    by (simp add: algebra_simps)
qed

lemma flat_inject:
  fixes ix iy iz jx jy jz ny nz :: int
  assumes "0 \<le> iy" "iy < ny" "0 \<le> iz" "iz < nz" "0 \<le> jy" "jy < ny" "0 \<le> jz" "jz < nz"
  shows "ix * (ny * nz) + iy * nz + iz = jx * (ny * nz) + jy * nz + jz
           \<longleftrightarrow> ix = jx \<and> iy = jy \<and> iz = jz"
proof
  assume e: "ix * (ny * nz) + iy * nz + iz = jx * (ny * nz) + jy * nz + jz"
  from flat_decode(1)[OF assms(1-4), of ix] flat_decode(1)[OF assms(5-8), of jx] e
  have x: "ix = jx" by simp
  from flat_decode(2)[OF assms(1-4), of ix] flat_decode(2)[OF assms(5-8), of jx] e x
  have y: "iy = jy" by simp
  from e x y show "ix = jx \<and> iy = jy \<and> iz = jz" by simp
qed simp

lemma mod_window_cases:
  fixes k n c :: int
  assumes "0 < n" "- n \<le> k" "k < 2 * n" "k mod n = c"
  shows "k = c - n \<or> k = c \<or> k = c + n"
proof -
  have k: "k = n * (k div n) + c" using assms(4) mult_div_mod_eq[of n k] by simp
  have m: "0 \<le> k mod n" "k mod n < n" using assms(1) by simp_all
  have "- 1 \<le> k div n"
  proof (rule ccontr)
    assume "\<not> - 1 \<le> k div n"
    then have "k div n \<le> - 2" by simp
    then have "n * (k div n) \<le> n * (- 2)" using assms(1) by (intro mult_left_mono) simp_all
    with k m assms(4) have "k < - n" by linarith
    with assms(2) show False by simp
  qed
  moreover have "k div n < 2"
  proof (rule ccontr)
    assume "\<not> k div n < 2"
    then have "2 \<le> k div n" by simp
    then have "n * 2 \<le> n * (k div n)" using assms(1) by (intro mult_left_mono) simp_all
    with k m assms(4) have "2 * n \<le> k" by linarith
    with assms(3) show False by simp
  qed
  ultimately consider "k div n = - 1" | "k div n = 0" | "k div n = 1" by linarith
  then show ?thesis using k by cases (simp_all add: algebra_simps)
qed

lemma axis_sum:
  fixes F :: "real \<Rightarrow> real" and n c lo hi :: int
  assumes n: "0 < n" and c: "0 \<le> c" "c < n"
    and W: "- n \<le> lo" "hi \<le> 2 * n" "hi - lo \<le> n"
    and G: "\<And>m. m \<in> {- 1, 0, 1} \<Longrightarrow> pbcs \<or> m = 0
                \<Longrightarrow> F (real_of_int m * P * of_bool pbcs) \<noteq> 0
                \<Longrightarrow> lo \<le> c + m * n \<and> c + m * n < hi"
  shows "(\<Sum>k \<in> {lo..<hi}. if k mod n = c then F (shift_of pbcs P n k) else 0)
           = (\<Sum>s\<leftarrow>image_shifts pbcs P. F s)"
proof -
  define h where "h k = (if lo \<le> k \<and> k < hi then F (shift_of pbcs P n k) else 0)" for k
  have S: "{k \<in> {lo..<hi}. k mod n = c} = {k \<in> {c - n, c, c + n}. lo \<le> k \<and> k < hi}"
  proof (intro set_eqI iffI)
    fix k assume "k \<in> {k \<in> {lo..<hi}. k mod n = c}"
    then have k: "lo \<le> k" "k < hi" "k mod n = c" by simp_all
    from mod_window_cases[OF n _ _ k(3)] k W
    show "k \<in> {k \<in> {c - n, c, c + n}. lo \<le> k \<and> k < hi}" by auto
  next
    fix k assume "k \<in> {k \<in> {c - n, c, c + n}. lo \<le> k \<and> k < hi}"
    then have "k = c - n \<or> k = c \<or> k = c + n" "lo \<le> k" "k < hi" by auto
    moreover have "(c - n) mod n = c" "c mod n = c" "(c + n) mod n = c"
      using c n by simp_all
    ultimately show "k \<in> {k \<in> {lo..<hi}. k mod n = c}" by auto
  qed
  have "(\<Sum>k \<in> {lo..<hi}. if k mod n = c then F (shift_of pbcs P n k) else 0)
          = (\<Sum>k \<in> {k \<in> {lo..<hi}. k mod n = c}. F (shift_of pbcs P n k))"
    by (rule sum.inter_filter[symmetric]) simp
  also have "\<dots> = (\<Sum>k \<in> {k \<in> {c - n, c, c + n}. lo \<le> k \<and> k < hi}. F (shift_of pbcs P n k))"
    by (simp only: S)
  also have "\<dots> = (\<Sum>k \<in> {c - n, c, c + n}. h k)"
    unfolding h_def by (rule sum.inter_filter) simp
  also have "\<dots> = h (c - n) + h c + h (c + n)"
    using n by simp
  finally have lhs: "(\<Sum>k \<in> {lo..<hi}. if k mod n = c then F (shift_of pbcs P n k) else 0)
          = h (c - n) + h c + h (c + n)" .
  have sh: "shift_of pbcs P n (c - n) = - P * of_bool pbcs" "shift_of pbcs P n c = 0"
    "shift_of pbcs P n (c + n) = P * of_bool pbcs"
    using n c by (simp_all add: shift_of_def)
  have hv: "h (c - n) = (if lo \<le> c - n \<and> c - n < hi then F (- P * of_bool pbcs) else 0)"
    "h c = (if lo \<le> c \<and> c < hi then F 0 else 0)"
    "h (c + n) = (if lo \<le> c + n \<and> c + n < hi then F (P * of_bool pbcs) else 0)"
    unfolding h_def sh by simp_all
  show ?thesis
  proof (cases pbcs)
    case True
    have "h (c - n) = F (- P)"
      using G[of "- 1"] True by (auto simp: hv)
    moreover have "h c = F 0"
      using G[of 0] True by (auto simp: hv)
    moreover have "h (c + n) = F P"
      using G[of 1] True by (auto simp: hv)
    ultimately show ?thesis using lhs True by (simp add: image_shifts_def)
  next
    case False
    show ?thesis
    proof (cases "F 0 = 0")
      case True
      with False lhs show ?thesis by (simp add: hv image_shifts_def)
    next
      case nz: False
      from G[of 0] nz False have "lo \<le> c" "c < hi" by simp_all
      with W have "\<not> (lo \<le> c - n)" "\<not> (c + n < hi)" by linarith+
      with \<open>lo \<le> c\<close> \<open>c < hi\<close> False lhs show ?thesis
        by (simp add: hv image_shifts_def)
    qed
  qed
qed

lemma square_less_abs:
  fixes d r :: real
  assumes "d * d < r * r"
  shows "\<bar>d\<bar> < \<bar>r\<bar>"
proof (rule ccontr)
  assume "\<not> \<bar>d\<bar> < \<bar>r\<bar>"
  then have "\<bar>r\<bar> \<le> \<bar>d\<bar>" by simp
  then have "r\<^sup>2 \<le> d\<^sup>2" by (simp add: abs_le_square_iff)
  with assms show False by (simp add: power2_eq_square)
qed

lemma cell_coord_image:
  assumes "0 < s2"
  shows "cell_coord s2 (X2 + real_of_int m * (real_of_int n2 * s2)) = cell_coord s2 X2 + m * n2"
proof -
  have "(X2 + real_of_int m * (real_of_int n2 * s2)) / s2 = X2 / s2 + real_of_int (m * n2)"
    using assms by (simp add: field_simps)
  then show ?thesis unfolding cell_coord_def by (simp only: floor_add_int)
qed

lemma image_in_window:
  fixes X1 X2 s2 r search sh :: real and cx1 per cov k :: int
  assumes s2: "0 < s2" and per: "0 < per"
    and c1: "cell_coord (real_of_int per * s2) X1 = cx1"
    and k: "cell_coord s2 (X2 + sh) = k"
    and r: "\<bar>r\<bar> \<le> search" and cov: "cov = \<lceil>search / s2\<rceil>"
    and d: "(X1 - sh - X2) * (X1 - sh - X2) < r * r"
  shows "cx1 * per - cov \<le> k \<and> k < (cx1 + 1) * per + cov"
proof -
  define u v where "u = X1 / s2" and "v = (X2 + sh) / s2"
  have rp: "0 < real_of_int per" using per by simp
  have "X1 / (real_of_int per * s2) = u / real_of_int per"
    by (simp add: u_def field_simps)
  with c1 have f1: "\<lfloor>u / real_of_int per\<rfloor> = cx1" by (simp add: cell_coord_def)
  have "real_of_int cx1 \<le> u / real_of_int per" "u / real_of_int per < real_of_int cx1 + 1"
    using f1 by linarith+
  then have u: "real_of_int cx1 * real_of_int per \<le> u"
    "u < (real_of_int cx1 + 1) * real_of_int per"
    using rp by (simp_all add: pos_le_divide_eq pos_divide_less_eq)
  from k have "\<lfloor>v\<rfloor> = k" by (simp add: cell_coord_def v_def)
  then have v: "real_of_int k \<le> v" "v < real_of_int k + 1" by linarith+
  from square_less_abs[OF d] r have "\<bar>X1 - sh - X2\<bar> < search" by simp
  then have "\<bar>X1 - sh - X2\<bar> / s2 < search / s2" using s2 by (simp add: divide_strict_right_mono)
  moreover have "search / s2 \<le> real_of_int cov" unfolding cov by (rule le_of_int_ceiling)
  moreover have "\<bar>u - v\<bar> = \<bar>X1 - sh - X2\<bar> / s2"
  proof -
    have "X1 - sh - X2 = X1 - (X2 + sh)" by simp
    then have "u - v = (X1 - sh - X2) / s2"
      unfolding u_def v_def by (simp only: diff_divide_distrib)
    then show ?thesis using s2 by (simp add: abs_divide)
  qed
  ultimately have uv: "\<bar>u - v\<bar> < real_of_int cov" by simp
  have e1: "real_of_int ((cx1 + 1) * per + cov)
              = (real_of_int cx1 + 1) * real_of_int per + real_of_int cov"
    by simp
  have e2: "real_of_int (cx1 * per - cov) = real_of_int cx1 * real_of_int per - real_of_int cov"
    "real_of_int (k + 1) = real_of_int k + 1"
    by simp_all
  from uv have uv': "u - v < real_of_int cov" "v - u < real_of_int cov" by linarith+
  have "real_of_int k < real_of_int ((cx1 + 1) * per + cov)"
    unfolding e1 using u v uv' by linarith
  then have hi: "k < (cx1 + 1) * per + cov" by (simp only: of_int_less_iff)
  have "real_of_int (cx1 * per - cov) < real_of_int (k + 1)"
    unfolding e2 using u v uv' by linarith
  then have "cx1 * per - cov < k + 1" by (simp only: of_int_less_iff)
  with hi show ?thesis by simp
qed

lemma np_take_in_range:
  assumes "\<forall>k \<in> set ks. 0 \<le> k \<and> k < int (length xs)"
  shows "np_take xs ks = Inr (map (\<lambda>k. xs ! nat k) ks)"
  using assms by (induction ks) (simp_all add: np_index_def Let_def)

lemma mesh_ok_perm:
  assumes "mesh_ok m xs ys zs"
  shows "length (idx_sorted m) = length xs" and "distinct (idx_sorted m)"
    and "set (idx_sorted m) = {0..<int (length xs)}"
proof -
  from assms have s: "sort (idx_sorted m) = [0..int (length xs) - 1]"
    by (simp add: mesh_ok_def)
  have "length (sort (idx_sorted m)) = length xs" unfolding s by simp
  then show "length (idx_sorted m) = length xs" by simp
  have "distinct (sort (idx_sorted m))" unfolding s by simp
  then show "distinct (idx_sorted m)" by simp
  have "set (sort (idx_sorted m)) = {0..<int (length xs)}" unfolding s by auto
  then show "set (idx_sorted m) = {0..<int (length xs)}" by simp
qed

lemma engine_locals_wf:
  assumes "double_mesh_ok double_mesh x1in y1in z1in x2in y2in z2in weights2in rsmooth"
  shows "engine_locals double_mesh x1in y1in z1in x2in y2in z2in weights2in rsmooth
           = Inr (wf_locals double_mesh x1in y1in z1in x2in y2in z2in weights2in rsmooth)"
proof -
  from assms have m1: "mesh_ok (mesh1 double_mesh) x1in y1in z1in"
    and m2: "mesh_ok (mesh2 double_mesh) x2in y2in z2in"
    and w: "length weights2in = length x2in"
    by (simp_all add: double_mesh_ok_def)
  from m1 have l1: "length y1in = length x1in" "length z1in = length x1in"
    and n1: "num_xdivs (mesh1 double_mesh) \<noteq> 0" "num_ydivs (mesh1 double_mesh) \<noteq> 0"
      "num_zdivs (mesh1 double_mesh) \<noteq> 0"
    by (simp_all add: mesh_ok_def)
  from m2 have l2: "length y2in = length x2in" "length z2in = length x2in"
    and s2: "xcell_size (mesh2 double_mesh) \<noteq> 0" "ycell_size (mesh2 double_mesh) \<noteq> 0"
      "zcell_size (mesh2 double_mesh) \<noteq> 0"
    by (simp_all add: mesh_ok_def)
  have r1: "\<forall>k \<in> set (idx_sorted (mesh1 double_mesh)). 0 \<le> k \<and> k < int (length x1in)"
    using mesh_ok_perm(3)[OF m1] by simp
  have r2: "\<forall>k \<in> set (idx_sorted (mesh2 double_mesh)). 0 \<le> k \<and> k < int (length x2in)"
    using mesh_ok_perm(3)[OF m2] by simp
  have t: "np_take x1in (idx_sorted (mesh1 double_mesh))
             = Inr (map (\<lambda>k. x1in ! nat k) (idx_sorted (mesh1 double_mesh)))"
    "np_take y1in (idx_sorted (mesh1 double_mesh))
             = Inr (map (\<lambda>k. y1in ! nat k) (idx_sorted (mesh1 double_mesh)))"
    "np_take z1in (idx_sorted (mesh1 double_mesh))
             = Inr (map (\<lambda>k. z1in ! nat k) (idx_sorted (mesh1 double_mesh)))"
    "np_take x2in (idx_sorted (mesh2 double_mesh))
             = Inr (map (\<lambda>k. x2in ! nat k) (idx_sorted (mesh2 double_mesh)))"
    "np_take y2in (idx_sorted (mesh2 double_mesh))
             = Inr (map (\<lambda>k. y2in ! nat k) (idx_sorted (mesh2 double_mesh)))"
    "np_take z2in (idx_sorted (mesh2 double_mesh))
             = Inr (map (\<lambda>k. z2in ! nat k) (idx_sorted (mesh2 double_mesh)))"
    "np_take weights2in (idx_sorted (mesh2 double_mesh))
             = Inr (map (\<lambda>k. weights2in ! nat k) (idx_sorted (mesh2 double_mesh)))"
    using r1 r2 l1 l2 w by (simp_all add: np_take_in_range)
  show ?thesis
    using n1 s2 by (simp add: engine_locals_def t covering_steps_def py_floordiv_def wf_locals_def)
qed

lemma wf_locals_ok:
  assumes "double_mesh_ok double_mesh x1in y1in z1in x2in y2in z2in weights2in rsmooth"
  shows "locals_ok (wf_locals double_mesh x1in y1in z1in x2in y2in z2in weights2in rsmooth)"
proof -
  from assms have m1: "mesh_ok (mesh1 double_mesh) x1in y1in z1in"
    and m2: "mesh_ok (mesh2 double_mesh) x2in y2in z2in"
    by (simp_all add: double_mesh_ok_def)
  from m1 m2 mesh_ok_perm(1)[OF m1] mesh_ok_perm(1)[OF m2] show ?thesis
    by (simp add: locals_ok_def wf_locals_def mesh_ok_def)
qed

lemma axis_sum_engine:
  fixes F :: "real \<Rightarrow> real"
  assumes ax: "axis_ok pbcs P search n1 n2 size1 size2 r"
    and pos: "0 < n1" "0 < n2" "0 < size2"
    and c1: "cell_coord size1 X1 = c1" "0 \<le> c1" "c1 < n1"
    and c2: "cell_coord size2 X2 = c2" "0 \<le> c2" "c2 < n2"
    and F: "\<And>s. F s \<noteq> 0 \<Longrightarrow> (X1 - s - X2) * (X1 - s - X2) < r * r"
  shows "(\<Sum>k \<in> {c1 * (n2 div n1) - \<lceil>search / size2\<rceil>
                   ..<(c1 + 1) * (n2 div n1) + \<lceil>search / size2\<rceil>}.
            if k mod n2 = c2 then F (shift_of pbcs P n2 k) else 0)
         = (\<Sum>s\<leftarrow>image_shifts pbcs P. F s)"
proof -
  define per cov where "per = n2 div n1" and "cov = \<lceil>search / size2\<rceil>"
  from ax have n2: "n2 = per * n1" and s1: "size1 = real_of_int per * size2"
    and r: "\<bar>r\<bar> \<le> search" and w: "per + 2 * cov \<le> n2"
    and P: "pbcs \<Longrightarrow> P = real_of_int n2 * size2"
    by (simp_all add: axis_ok_def per_def cov_def)
  have per: "0 < per"
  proof (rule ccontr)
    assume "\<not> 0 < per"
    then have "per * n1 \<le> 0" using pos(1) by (simp add: mult_le_0_iff)
    with n2 pos(2) show False by simp
  qed
  have "0 \<le> search" using r by simp
  then have "0 \<le> search / size2" using pos(3) by simp
  then have cov: "0 \<le> cov" unfolding cov_def by (simp add: ceiling_le_iff[symmetric] le_ceiling_iff)
  have cn: "cov \<le> n2" using w per cov by simp
  have "0 \<le> c1 * per" using c1(2) per by simp
  then have W1: "- n2 \<le> c1 * per - cov" using cn by simp
  have "(c1 + 1) * per \<le> n1 * per" using c1(3) per by (intro mult_right_mono) simp_all
  then have W2: "(c1 + 1) * per + cov \<le> 2 * n2" using cn n2 by (simp add: mult.commute)
  have W3: "(c1 + 1) * per + cov - (c1 * per - cov) \<le> n2" using w by (simp add: algebra_simps)
  have G: "c1 * per - cov \<le> c2 + m * n2 \<and> c2 + m * n2 < (c1 + 1) * per + cov"
    if m: "m \<in> {- 1, 0, 1}" "pbcs \<or> m = 0" and nz: "F (real_of_int m * P * of_bool pbcs) \<noteq> 0"
    for m :: int
  proof -
    define sh where "sh = real_of_int m * P * of_bool pbcs"
    have k: "cell_coord size2 (X2 + sh) = c2 + m * n2"
    proof (cases pbcs)
      case True
      then have "sh = real_of_int m * (real_of_int n2 * size2)" using P by (simp add: sh_def)
      then show ?thesis using cell_coord_image[OF pos(3), of X2 m n2] c2(1) by simp
    next
      case False
      with m(2) show ?thesis using c2(1) by (simp add: sh_def)
    qed
    from F[OF nz] have d: "(X1 - sh - X2) * (X1 - sh - X2) < r * r" by (simp add: sh_def)
    from c1(1) s1 have c1': "cell_coord (real_of_int per * size2) X1 = c1" by simp
    show ?thesis
      by (rule image_in_window[OF pos(3) per c1' k r cov_def d])
  qed
  show ?thesis
    unfolding per_def[symmetric] cov_def[symmetric]
    by (rule axis_sum[OF pos(2) c2(2,3) W1 W2 W3 G])
qed

lemma sum_4_swap:
  fixes f :: "'a \<Rightarrow> 'b \<Rightarrow> 'c \<Rightarrow> 'd \<Rightarrow> real"
  shows "(\<Sum>a \<in> A. \<Sum>b \<in> B. \<Sum>c \<in> C. \<Sum>d \<in> D. f a b c d)
           = (\<Sum>d \<in> D. \<Sum>a \<in> A. \<Sum>b \<in> B. \<Sum>c \<in> C. f a b c d)"
proof -
  have "(\<Sum>a \<in> A. \<Sum>b \<in> B. \<Sum>c \<in> C. \<Sum>d \<in> D. f a b c d)
          = (\<Sum>a \<in> A. \<Sum>b \<in> B. \<Sum>d \<in> D. \<Sum>c \<in> C. f a b c d)"
    by (intro sum.cong refl) (rule sum.swap)
  also have "\<dots> = (\<Sum>a \<in> A. \<Sum>d \<in> D. \<Sum>b \<in> B. \<Sum>c \<in> C. f a b c d)"
    by (intro sum.cong refl) (rule sum.swap)
  also have "\<dots> = (\<Sum>d \<in> D. \<Sum>a \<in> A. \<Sum>b \<in> B. \<Sum>c \<in> C. f a b c d)"
    by (rule sum.swap)
  finally show ?thesis .
qed

lemma sum_list_zero:
  fixes f :: "'a \<Rightarrow> real"
  shows "(\<And>x. x \<in> set xs \<Longrightarrow> f x = 0) \<Longrightarrow> (\<Sum>x\<leftarrow>xs. f x) = 0"
  by (induction xs) simp_all

lemma pair_term_nonzero:
  assumes "pair_term L p j sx sy sz q \<noteq> 0"
  shows "(x1_sorted L ! p - sx - x2_sorted L ! j) * (x1_sorted L ! p - sx - x2_sorted L ! j)
           < rsmooth_squared L"
    and "(y1_sorted L ! p - sy - y2_sorted L ! j) * (y1_sorted L ! p - sy - y2_sorted L ! j)
           < rsmooth_squared L"
    and "(z1_sorted L ! p - sz - z2_sorted L ! j) * (z1_sorted L ! p - sz - z2_sorted L ! j)
           < rsmooth_squared L"
proof -
  define dx dy dz where "dx = x1_sorted L ! p - sx - x2_sorted L ! j"
    and "dy = y1_sorted L ! p - sy - y2_sorted L ! j"
    and "dz = z1_sorted L ! p - sz - z2_sorted L ! j"
  from assms have d: "dx * dx + dy * dy + dz * dz < rsmooth_squared L"
    unfolding pair_term_def Let_def dx_def dy_def dz_def by (auto split: if_splits)
  have "0 \<le> dx * dx" "0 \<le> dy * dy" "0 \<le> dz * dz" by simp_all
  with d show "dx * dx < rsmooth_squared L" "dy * dy < rsmooth_squared L"
    "dz * dz < rsmooth_squared L" by linarith+
qed

lemma mesh_ok_point:
  assumes "mesh_ok m xs ys zs" "p < length xs"
  shows "0 \<le> cell_coord (xcell_size m) (xs ! nat (idx_sorted m ! p))
     \<and> cell_coord (xcell_size m) (xs ! nat (idx_sorted m ! p)) < num_xdivs m
     \<and> 0 \<le> cell_coord (ycell_size m) (ys ! nat (idx_sorted m ! p))
     \<and> cell_coord (ycell_size m) (ys ! nat (idx_sorted m ! p)) < num_ydivs m
     \<and> 0 \<le> cell_coord (zcell_size m) (zs ! nat (idx_sorted m ! p))
     \<and> cell_coord (zcell_size m) (zs ! nat (idx_sorted m ! p)) < num_zdivs m
     \<and> cell_id_indices m !
         nat (cell_coord (xcell_size m) (xs ! nat (idx_sorted m ! p))
                * (num_ydivs m * num_zdivs m)
              + cell_coord (ycell_size m) (ys ! nat (idx_sorted m ! p)) * num_zdivs m
              + cell_coord (zcell_size m) (zs ! nat (idx_sorted m ! p))) \<le> int p
     \<and> int p < cell_id_indices m !
         nat (cell_coord (xcell_size m) (xs ! nat (idx_sorted m ! p))
                * (num_ydivs m * num_zdivs m)
              + cell_coord (ycell_size m) (ys ! nat (idx_sorted m ! p)) * num_zdivs m
              + cell_coord (zcell_size m) (zs ! nat (idx_sorted m ! p)) + 1)"
proof -
  from assms(1) have "\<forall>p \<in> {0..<length xs}.
           let i = nat (idx_sorted m ! p);
               cx = cell_coord (xcell_size m) (xs ! i);
               cy = cell_coord (ycell_size m) (ys ! i);
               cz = cell_coord (zcell_size m) (zs ! i);
               c = cx * (num_ydivs m * num_zdivs m) + cy * num_zdivs m + cz
           in 0 \<le> cx \<and> cx < num_xdivs m \<and> 0 \<le> cy \<and> cy < num_ydivs m
              \<and> 0 \<le> cz \<and> cz < num_zdivs m
              \<and> cell_id_indices m ! nat c \<le> int p \<and> int p < cell_id_indices m ! nat (c + 1)"
    unfolding mesh_ok_def by blast
  with assms(2) show ?thesis unfolding Let_def by simp
qed

lemma wf_cell1:
  assumes ok: "double_mesh_ok dmesh x1in y1in z1in x2in y2in z2in w2in r"
    and L: "L = wf_locals dmesh x1in y1in z1in x2in y2in z2in w2in r"
    and p: "p < length x1in"
  shows "0 \<le> cx1 L p" "cx1 L p < num_xdivs (mesh1 dmesh)"
    "0 \<le> cy1 L p" "cy1 L p < num_ydivs (mesh1 dmesh)"
    "0 \<le> cz1 L p" "cz1 L p < num_zdivs (mesh1 dmesh)"
    "cell1_indices L ! nat (cx1 L p * (num_ydivs (mesh1 dmesh) * num_zdivs (mesh1 dmesh))
        + cy1 L p * num_zdivs (mesh1 dmesh) + cz1 L p) \<le> int p"
    "int p < cell1_indices L ! nat (cx1 L p * (num_ydivs (mesh1 dmesh) * num_zdivs (mesh1 dmesh))
        + cy1 L p * num_zdivs (mesh1 dmesh) + cz1 L p + 1)"
proof -
  from ok have m1: "mesh_ok (mesh1 dmesh) x1in y1in z1in" by (simp add: double_mesh_ok_def)
  from mesh_ok_perm(1)[OF m1] p have pl: "p < length (idx_sorted (mesh1 dmesh))" by simp
  have e: "cx1 L p = cell_coord (xcell_size (mesh1 dmesh)) (x1in ! nat (idx_sorted (mesh1 dmesh) ! p))"
    "cy1 L p = cell_coord (ycell_size (mesh1 dmesh)) (y1in ! nat (idx_sorted (mesh1 dmesh) ! p))"
    "cz1 L p = cell_coord (zcell_size (mesh1 dmesh)) (z1in ! nat (idx_sorted (mesh1 dmesh) ! p))"
    "cell1_indices L = cell_id_indices (mesh1 dmesh)"
    using pl by (simp_all add: cx1_def cy1_def cz1_def L wf_locals_def)
  from mesh_ok_point[OF m1 p]
  show "0 \<le> cx1 L p" "cx1 L p < num_xdivs (mesh1 dmesh)"
    "0 \<le> cy1 L p" "cy1 L p < num_ydivs (mesh1 dmesh)"
    "0 \<le> cz1 L p" "cz1 L p < num_zdivs (mesh1 dmesh)"
    "cell1_indices L ! nat (cx1 L p * (num_ydivs (mesh1 dmesh) * num_zdivs (mesh1 dmesh))
        + cy1 L p * num_zdivs (mesh1 dmesh) + cz1 L p) \<le> int p"
    "int p < cell1_indices L ! nat (cx1 L p * (num_ydivs (mesh1 dmesh) * num_zdivs (mesh1 dmesh))
        + cy1 L p * num_zdivs (mesh1 dmesh) + cz1 L p + 1)"
    unfolding e by simp_all
qed

lemma wf_cell2:
  assumes ok: "double_mesh_ok dmesh x1in y1in z1in x2in y2in z2in w2in r"
    and L: "L = wf_locals dmesh x1in y1in z1in x2in y2in z2in w2in r"
    and j: "j < length x2in"
  shows "0 \<le> cx2 L j" "cx2 L j < num_xdivs (mesh2 dmesh)"
    "0 \<le> cy2 L j" "cy2 L j < num_ydivs (mesh2 dmesh)"
    "0 \<le> cz2 L j" "cz2 L j < num_zdivs (mesh2 dmesh)"
    "cell2_indices L ! nat (cell2_id L (cx2 L j) (cy2 L j) (cz2 L j)) \<le> int j"
    "int j < cell2_indices L ! nat (cell2_id L (cx2 L j) (cy2 L j) (cz2 L j) + 1)"
proof -
  from ok have m2: "mesh_ok (mesh2 dmesh) x2in y2in z2in" by (simp add: double_mesh_ok_def)
  from mesh_ok_perm(1)[OF m2] j have jl: "j < length (idx_sorted (mesh2 dmesh))" by simp
  have e: "cx2 L j = cell_coord (xcell_size (mesh2 dmesh)) (x2in ! nat (idx_sorted (mesh2 dmesh) ! j))"
    "cy2 L j = cell_coord (ycell_size (mesh2 dmesh)) (y2in ! nat (idx_sorted (mesh2 dmesh) ! j))"
    "cz2 L j = cell_coord (zcell_size (mesh2 dmesh)) (z2in ! nat (idx_sorted (mesh2 dmesh) ! j))"
    "cell2_indices L = cell_id_indices (mesh2 dmesh)"
    "dm L = dmesh"
    using jl by (simp_all add: cx2_def cy2_def cz2_def L wf_locals_def)
  from mesh_ok_point[OF m2 j]
  show "0 \<le> cx2 L j" "cx2 L j < num_xdivs (mesh2 dmesh)"
    "0 \<le> cy2 L j" "cy2 L j < num_ydivs (mesh2 dmesh)"
    "0 \<le> cz2 L j" "cz2 L j < num_zdivs (mesh2 dmesh)"
    "cell2_indices L ! nat (cell2_id L (cx2 L j) (cy2 L j) (cz2 L j)) \<le> int j"
    "int j < cell2_indices L ! nat (cell2_id L (cx2 L j) (cy2 L j) (cz2 L j) + 1)"
    unfolding cell2_id_def e by simp_all
qed

lemma cell1_sum_single:
  assumes ok: "double_mesh_ok dmesh x1in y1in z1in x2in y2in z2in w2in r"
    and L: "L = wf_locals dmesh x1in y1in z1in x2in y2in z2in w2in r"
    and p: "p < length x1in"
  shows "(\<Sum>c \<in> {0..<ncells (mesh1 dmesh)}. cell1_term L c p q)
           = window_term L (cx1 L p) (cy1 L p) (cz1 L p) p q"
proof -
  define ny nz where "ny = num_ydivs (mesh1 dmesh)" and "nz = num_zdivs (mesh1 dmesh)"
  define c1 where "c1 = cx1 L p * (ny * nz) + cy1 L p * nz + cz1 L p"
  note w = wf_cell1[OF ok L p, folded ny_def nz_def, folded c1_def]
  from ok have m1: "mesh_ok (mesh1 dmesh) x1in y1in z1in" by (simp add: double_mesh_ok_def)
  then have nc: "ncells (mesh1 dmesh) = num_xdivs (mesh1 dmesh) * ny * nz"
    and len: "int (length (cell_id_indices (mesh1 dmesh))) = ncells (mesh1 dmesh) + 1"
    and srt: "sorted (cell_id_indices (mesh1 dmesh))"
    by (simp_all add: mesh_ok_def ny_def nz_def)
  have Lf: "cell1_indices L = cell_id_indices (mesh1 dmesh)" "dm L = dmesh"
    by (simp_all add: L wf_locals_def)
  note b = flat_index_bounds[OF w(1-6), folded c1_def]
  have c1r: "0 \<le> c1" "c1 < ncells (mesh1 dmesh)" using b nc by simp_all
  have dec: "cell1_x L c1 = cx1 L p" "cell1_y L c1 = cy1 L p" "cell1_z L c1 = cz1 L p"
    using flat_decode[OF w(3-6), of "cx1 L p"]
    by (simp_all add: cell1_x_def cell1_y_def cell1_z_def Lf c1_def ny_def nz_def)
  have one: "cell1_term L c p q
               = (if c = c1 then window_term L (cx1 L p) (cy1 L p) (cz1 L p) p q else 0)"
    if c: "c \<in> {0..<ncells (mesh1 dmesh)}" for c
  proof -
    from c have c0: "0 \<le> c" "c < ncells (mesh1 dmesh)" by simp_all
    have "(cell_id_indices (mesh1 dmesh) ! nat c \<le> int p
            \<and> int p < cell_id_indices (mesh1 dmesh) ! (nat c + 1)) \<longleftrightarrow> nat c = nat c1"
    proof (rule sorted_cells_unique[OF srt])
      from c1r len show "nat c1 + 1 < length (cell_id_indices (mesh1 dmesh))" by linarith
      from c0 len show "nat c + 1 < length (cell_id_indices (mesh1 dmesh))" by linarith
      from w(7) show "cell_id_indices (mesh1 dmesh) ! nat c1 \<le> int p" by (simp add: Lf)
      from w(8) c1r show "int p < cell_id_indices (mesh1 dmesh) ! (nat c1 + 1)"
        by (simp add: Lf nat_add_distrib)
    qed
    moreover have "nat (c + 1) = nat c + 1" using c0 by (simp add: nat_add_distrib)
    moreover have "nat c = nat c1 \<longleftrightarrow> c = c1" using c0 c1r by (simp add: nat_eq_iff)
    ultimately show ?thesis
      by (auto simp: cell1_term_def Lf dec)
  qed
  have "(\<Sum>c \<in> {0..<ncells (mesh1 dmesh)}. cell1_term L c p q)
          = (\<Sum>c \<in> {0..<ncells (mesh1 dmesh)}.
               if c = c1 then window_term L (cx1 L p) (cy1 L p) (cz1 L p) p q else 0)"
    by (rule sum.cong[OF refl]) (rule one)
  also have "\<dots> = window_term L (cx1 L p) (cy1 L p) (cz1 L p) p q"
    using c1r by simp
  finally show ?thesis .
qed

lemma visit_term_filter:
  assumes ok: "double_mesh_ok dmesh x1in y1in z1in x2in y2in z2in w2in r"
    and L: "L = wf_locals dmesh x1in y1in z1in x2in y2in z2in w2in r"
  shows "visit_term L kx ky kz p q
           = (\<Sum>j \<in> {..<length x2in}.
                if kx mod num_xdivs (mesh2 dmesh) = cx2 L j
                   \<and> ky mod num_ydivs (mesh2 dmesh) = cy2 L j
                   \<and> kz mod num_zdivs (mesh2 dmesh) = cz2 L j
                then pair_term L p j (x_shift L kx) (y_shift L ky) (z_shift L kz) q else 0)"
proof -
  define nx ny nz where "nx = num_xdivs (mesh2 dmesh)" and "ny = num_ydivs (mesh2 dmesh)"
    and "nz = num_zdivs (mesh2 dmesh)"
  define n2 where "n2 = length x2in"
  define ci where "ci = cell_id_indices (mesh2 dmesh)"
  define f where "f j = pair_term L p j (x_shift L kx) (y_shift L ky) (z_shift L kz) q" for j
  define c2k where "c2k = cell2_id L (kx mod nx) (ky mod ny) (kz mod nz)"
  from ok have m2: "mesh_ok (mesh2 dmesh) x2in y2in z2in" by (simp add: double_mesh_ok_def)
  then have pos: "0 < nx" "0 < ny" "0 < nz"
    and nc: "ncells (mesh2 dmesh) = nx * ny * nz"
    and len: "int (length ci) = ncells (mesh2 dmesh) + 1"
    and srt: "sorted ci"
    and vals: "\<And>v. v \<in> set ci \<Longrightarrow> 0 \<le> v \<and> v \<le> int n2"
    by (simp_all add: mesh_ok_def nx_def ny_def nz_def ci_def n2_def)
  have Lf: "cell2_indices L = ci" "dm L = dmesh"
    by (simp_all add: L wf_locals_def ci_def)
  have id: "cell2_id L a b c = a * (ny * nz) + b * nz + c" for a b c
    by (simp add: cell2_id_def Lf ny_def nz_def)
  note kb = mod_bounds[OF pos(1), of kx] mod_bounds[OF pos(2), of ky] mod_bounds[OF pos(3), of kz]
  note b = flat_index_bounds[OF kb, folded id, folded c2k_def]
  have c2r: "nat c2k + 1 < length ci" using b nc len by linarith
  define a b' where "a = ci ! nat c2k" and "b' = ci ! (nat c2k + 1)"
  have ab: "0 \<le> a" "b' \<le> int n2"
    using vals[of a] vals[of b'] c2r by (simp_all add: a_def b'_def)
  have match: "(a \<le> int j \<and> int j < b')
                 \<longleftrightarrow> (kx mod nx = cx2 L j \<and> ky mod ny = cy2 L j \<and> kz mod nz = cz2 L j)"
    if j: "j < n2" for j
  proof -
    note w = wf_cell2[OF ok L j[unfolded n2_def], folded nx_def ny_def nz_def]
    define c2j where "c2j = cell2_id L (cx2 L j) (cy2 L j) (cz2 L j)"
    note bj = flat_index_bounds[OF w(1-6), folded id, folded c2j_def]
    have cjr: "nat c2j + 1 < length ci" using bj nc len by linarith
    have "(ci ! nat c2k \<le> int j \<and> int j < ci ! (nat c2k + 1)) \<longleftrightarrow> nat c2k = nat c2j"
    proof (rule sorted_cells_unique[OF srt cjr c2r])
      from w(7) show "ci ! nat c2j \<le> int j" by (simp add: Lf c2j_def)
      from w(8) bj show "int j < ci ! (nat c2j + 1)" by (simp add: Lf c2j_def nat_add_distrib)
    qed
    moreover have "nat c2k = nat c2j \<longleftrightarrow> c2k = c2j" using b bj by (simp add: nat_eq_iff)
    moreover have "c2k = c2j \<longleftrightarrow> (kx mod nx = cx2 L j \<and> ky mod ny = cy2 L j \<and> kz mod nz = cz2 L j)"
      unfolding c2k_def c2j_def id by (rule flat_inject[OF kb(3-6) w(3-6)])
    ultimately show ?thesis by (simp add: a_def b'_def)
  qed
  have "visit_term L kx ky kz p q = (\<Sum>j' \<in> {a..<b'}. f (nat j'))"
    using b by (simp add: visit_term_def cell2_term_def Lf f_def c2k_def nx_def ny_def nz_def
                  a_def b'_def nat_add_distrib)
  also have "\<dots> = (\<Sum>j \<in> {j \<in> {..<n2}. a \<le> int j \<and> int j < b'}. f j)"
    by (rule sum.reindex_bij_witness[of _ int nat]) (use ab in auto)
  also have "\<dots> = (\<Sum>j \<in> {..<n2}. if a \<le> int j \<and> int j < b' then f j else 0)"
    by (rule sum.inter_filter) simp
  also have "\<dots> = (\<Sum>j \<in> {..<n2}.
                if kx mod nx = cx2 L j \<and> ky mod ny = cy2 L j \<and> kz mod nz = cz2 L j
                then f j else 0)"
    by (rule sum.cong[OF refl]) (simp add: match)
  finally show ?thesis unfolding f_def nx_def ny_def nz_def n2_def .
qed

lemma axis_ok_fields:
  assumes ok: "double_mesh_ok dmesh x1in y1in z1in x2in y2in z2in w2in r"
  shows "axis_ok (PBCs dmesh) (xperiod dmesh) (search_xlength dmesh)
           (num_xdivs (mesh1 dmesh)) (num_xdivs (mesh2 dmesh))
           (xcell_size (mesh1 dmesh)) (xcell_size (mesh2 dmesh)) r"
    and "axis_ok (PBCs dmesh) (yperiod dmesh) (search_ylength dmesh)
           (num_ydivs (mesh1 dmesh)) (num_ydivs (mesh2 dmesh))
           (ycell_size (mesh1 dmesh)) (ycell_size (mesh2 dmesh)) r"
    and "axis_ok (PBCs dmesh) (zperiod dmesh) (search_zlength dmesh)
           (num_zdivs (mesh1 dmesh)) (num_zdivs (mesh2 dmesh))
           (zcell_size (mesh1 dmesh)) (zcell_size (mesh2 dmesh)) r"
    and "0 < num_xdivs (mesh1 dmesh)" "0 < num_ydivs (mesh1 dmesh)" "0 < num_zdivs (mesh1 dmesh)"
    and "0 < num_xdivs (mesh2 dmesh)" "0 < num_ydivs (mesh2 dmesh)" "0 < num_zdivs (mesh2 dmesh)"
    and "0 < xcell_size (mesh2 dmesh)" "0 < ycell_size (mesh2 dmesh)"
      "0 < zcell_size (mesh2 dmesh)"
  using ok by (simp_all add: double_mesh_ok_def mesh_ok_def)

lemma window_point_sum:
  assumes ok: "double_mesh_ok dmesh x1in y1in z1in x2in y2in z2in w2in r"
    and L: "L = wf_locals dmesh x1in y1in z1in x2in y2in z2in w2in r"
    and p: "p < length x1in" and j: "j < length x2in"
  shows "(\<Sum>kx \<in> x_window L (cx1 L p). \<Sum>ky \<in> y_window L (cy1 L p).
            \<Sum>kz \<in> z_window L (cz1 L p).
              if kx mod num_xdivs (mesh2 dmesh) = cx2 L j
                 \<and> ky mod num_ydivs (mesh2 dmesh) = cy2 L j
                 \<and> kz mod num_zdivs (mesh2 dmesh) = cz2 L j
              then pair_term L p j (x_shift L kx) (y_shift L ky) (z_shift L kz) q else 0)
         = (\<Sum>sx\<leftarrow>image_shifts (PBCs dmesh) (xperiod dmesh).
            \<Sum>sy\<leftarrow>image_shifts (PBCs dmesh) (yperiod dmesh).
            \<Sum>sz\<leftarrow>image_shifts (PBCs dmesh) (zperiod dmesh). pair_term L p j sx sy sz q)"
proof -
  note ax = axis_ok_fields[OF ok]
  note w1 = wf_cell1[OF ok L p] and w2 = wf_cell2[OF ok L j]
  have rs: "rsmooth_squared L = r * r" by (simp add: L wf_locals_def)
  have Lf: "dm L = dmesh" by (simp add: L wf_locals_def)
  have per: "num_x2_per_x1 L = num_xdivs (mesh2 dmesh) div num_xdivs (mesh1 dmesh)"
    "num_y2_per_y1 L = num_ydivs (mesh2 dmesh) div num_ydivs (mesh1 dmesh)"
    "num_z2_per_z1 L = num_zdivs (mesh2 dmesh) div num_zdivs (mesh1 dmesh)"
    "num_x2_covering_steps L = \<lceil>search_xlength dmesh / xcell_size (mesh2 dmesh)\<rceil>"
    "num_y2_covering_steps L = \<lceil>search_ylength dmesh / ycell_size (mesh2 dmesh)\<rceil>"
    "num_z2_covering_steps L = \<lceil>search_zlength dmesh / zcell_size (mesh2 dmesh)\<rceil>"
    by (simp_all add: L wf_locals_def)
  have zs: "(\<Sum>kz \<in> z_window L (cz1 L p).
               if kz mod num_zdivs (mesh2 dmesh) = cz2 L j
               then pair_term L p j sx sy (z_shift L kz) q else 0)
            = (\<Sum>sz\<leftarrow>image_shifts (PBCs dmesh) (zperiod dmesh). pair_term L p j sx sy sz q)"
    for sx sy
    unfolding z_window_def z_shift_def Lf
  proof -
    have "(\<Sum>k \<in> {cz1 L p * (num_zdivs (mesh2 dmesh) div num_zdivs (mesh1 dmesh))
                     - \<lceil>search_zlength dmesh / zcell_size (mesh2 dmesh)\<rceil>
                   ..<(cz1 L p + 1) * (num_zdivs (mesh2 dmesh) div num_zdivs (mesh1 dmesh))
                     + \<lceil>search_zlength dmesh / zcell_size (mesh2 dmesh)\<rceil>}.
            if k mod num_zdivs (mesh2 dmesh) = cz2 L j
            then pair_term L p j sx sy
                   (shift_of (PBCs dmesh) (zperiod dmesh) (num_zdivs (mesh2 dmesh)) k) q
            else 0)
          = (\<Sum>s\<leftarrow>image_shifts (PBCs dmesh) (zperiod dmesh). pair_term L p j sx sy s q)"
    proof (rule axis_sum_engine[OF ax(3) ax(6) ax(9) ax(12) _ w1(5,6) _ w2(5,6)])
      show "cell_coord (zcell_size (mesh1 dmesh)) (z1_sorted L ! p) = cz1 L p"
        by (simp add: cz1_def Lf)
      show "cell_coord (zcell_size (mesh2 dmesh)) (z2_sorted L ! j) = cz2 L j"
        by (simp add: cz2_def Lf)
      fix s assume "pair_term L p j sx sy s q \<noteq> 0"
      from pair_term_nonzero(3)[OF this]
      show "(z1_sorted L ! p - s - z2_sorted L ! j) * (z1_sorted L ! p - s - z2_sorted L ! j)
              < r * r"
        by (simp add: rs)
    qed
    then show "(\<Sum>kz = cz1 L p * num_z2_per_z1 L - num_z2_covering_steps L
                      ..<(cz1 L p + 1) * num_z2_per_z1 L + num_z2_covering_steps L.
                  if kz mod num_zdivs (mesh2 dmesh) = cz2 L j
                  then pair_term L p j sx sy
                         (shift_of (PBCs dmesh) (zperiod dmesh) (num_zdivs (mesh2 dmesh)) kz) q
                  else 0)
               = (\<Sum>sz\<leftarrow>image_shifts (PBCs dmesh) (zperiod dmesh). pair_term L p j sx sy sz q)"
      unfolding per .
  qed
  define Fy where "Fy sx sy = (\<Sum>sz\<leftarrow>image_shifts (PBCs dmesh) (zperiod dmesh).
                                 pair_term L p j sx sy sz q)" for sx sy
  have ys: "(\<Sum>ky \<in> y_window L (cy1 L p).
               if ky mod num_ydivs (mesh2 dmesh) = cy2 L j then Fy sx (y_shift L ky) else 0)
            = (\<Sum>sy\<leftarrow>image_shifts (PBCs dmesh) (yperiod dmesh). Fy sx sy)"
    for sx
  proof -
    have "(\<Sum>k \<in> {cy1 L p * (num_ydivs (mesh2 dmesh) div num_ydivs (mesh1 dmesh))
                     - \<lceil>search_ylength dmesh / ycell_size (mesh2 dmesh)\<rceil>
                   ..<(cy1 L p + 1) * (num_ydivs (mesh2 dmesh) div num_ydivs (mesh1 dmesh))
                     + \<lceil>search_ylength dmesh / ycell_size (mesh2 dmesh)\<rceil>}.
            if k mod num_ydivs (mesh2 dmesh) = cy2 L j
            then Fy sx (shift_of (PBCs dmesh) (yperiod dmesh) (num_ydivs (mesh2 dmesh)) k)
            else 0)
          = (\<Sum>s\<leftarrow>image_shifts (PBCs dmesh) (yperiod dmesh). Fy sx s)"
    proof (rule axis_sum_engine[OF ax(2) ax(5) ax(8) ax(11) _ w1(3,4) _ w2(3,4)])
      show "cell_coord (ycell_size (mesh1 dmesh)) (y1_sorted L ! p) = cy1 L p"
        by (simp add: cy1_def Lf)
      show "cell_coord (ycell_size (mesh2 dmesh)) (y2_sorted L ! j) = cy2 L j"
        by (simp add: cy2_def Lf)
      fix s assume nz: "Fy sx s \<noteq> 0"
      have "\<exists>sz. pair_term L p j sx s sz q \<noteq> 0"
      proof (rule ccontr)
        assume "\<not> (\<exists>sz. pair_term L p j sx s sz q \<noteq> 0)"
        then have "Fy sx s = 0" unfolding Fy_def by (intro sum_list_zero) simp
        with nz show False by simp
      qed
      then obtain sz where "pair_term L p j sx s sz q \<noteq> 0" by blast
      from pair_term_nonzero(2)[OF this]
      show "(y1_sorted L ! p - s - y2_sorted L ! j) * (y1_sorted L ! p - s - y2_sorted L ! j)
              < r * r"
        by (simp add: rs)
    qed
    then show ?thesis
      unfolding y_window_def y_shift_def Lf per .
  qed
  define Fx where "Fx sx = (\<Sum>sy\<leftarrow>image_shifts (PBCs dmesh) (yperiod dmesh). Fy sx sy)" for sx
  have xs: "(\<Sum>kx \<in> x_window L (cx1 L p).
               if kx mod num_xdivs (mesh2 dmesh) = cx2 L j then Fx (x_shift L kx) else 0)
            = (\<Sum>sx\<leftarrow>image_shifts (PBCs dmesh) (xperiod dmesh). Fx sx)"
  proof -
    have "(\<Sum>k \<in> {cx1 L p * (num_xdivs (mesh2 dmesh) div num_xdivs (mesh1 dmesh))
                     - \<lceil>search_xlength dmesh / xcell_size (mesh2 dmesh)\<rceil>
                   ..<(cx1 L p + 1) * (num_xdivs (mesh2 dmesh) div num_xdivs (mesh1 dmesh))
                     + \<lceil>search_xlength dmesh / xcell_size (mesh2 dmesh)\<rceil>}.
            if k mod num_xdivs (mesh2 dmesh) = cx2 L j
            then Fx (shift_of (PBCs dmesh) (xperiod dmesh) (num_xdivs (mesh2 dmesh)) k)
            else 0)
          = (\<Sum>s\<leftarrow>image_shifts (PBCs dmesh) (xperiod dmesh). Fx s)"
    proof (rule axis_sum_engine[OF ax(1) ax(4) ax(7) ax(10) _ w1(1,2) _ w2(1,2)])
      show "cell_coord (xcell_size (mesh1 dmesh)) (x1_sorted L ! p) = cx1 L p"
        by (simp add: cx1_def Lf)
      show "cell_coord (xcell_size (mesh2 dmesh)) (x2_sorted L ! j) = cx2 L j"
        by (simp add: cx2_def Lf)
      fix s assume nz: "Fx s \<noteq> 0"
      have "\<exists>sy. Fy s sy \<noteq> 0"
      proof (rule ccontr)
        assume "\<not> (\<exists>sy. Fy s sy \<noteq> 0)"
        then have "Fx s = 0" unfolding Fx_def by (intro sum_list_zero) simp
        with nz show False by simp
      qed
      then obtain sy where nzy: "Fy s sy \<noteq> 0" by blast
      have "\<exists>sz. pair_term L p j s sy sz q \<noteq> 0"
      proof (rule ccontr)
        assume "\<not> (\<exists>sz. pair_term L p j s sy sz q \<noteq> 0)"
        then have "Fy s sy = 0" unfolding Fy_def by (intro sum_list_zero) simp
        with nzy show False by simp
      qed
      then obtain sz where "pair_term L p j s sy sz q \<noteq> 0" by blast
      from pair_term_nonzero(1)[OF this]
      show "(x1_sorted L ! p - s - x2_sorted L ! j) * (x1_sorted L ! p - s - x2_sorted L ! j)
              < r * r"
        by (simp add: rs)
    qed
    then show ?thesis
      unfolding x_window_def x_shift_def Lf per .
  qed
  have "(\<Sum>kx \<in> x_window L (cx1 L p). \<Sum>ky \<in> y_window L (cy1 L p).
            \<Sum>kz \<in> z_window L (cz1 L p).
              if kx mod num_xdivs (mesh2 dmesh) = cx2 L j
                 \<and> ky mod num_ydivs (mesh2 dmesh) = cy2 L j
                 \<and> kz mod num_zdivs (mesh2 dmesh) = cz2 L j
              then pair_term L p j (x_shift L kx) (y_shift L ky) (z_shift L kz) q else 0)
        = (\<Sum>kx \<in> x_window L (cx1 L p).
             if kx mod num_xdivs (mesh2 dmesh) = cx2 L j then Fx (x_shift L kx) else 0)"
  proof (rule sum.cong[OF refl])
    fix kx
    have "(\<Sum>ky \<in> y_window L (cy1 L p). \<Sum>kz \<in> z_window L (cz1 L p).
              if kx mod num_xdivs (mesh2 dmesh) = cx2 L j
                 \<and> ky mod num_ydivs (mesh2 dmesh) = cy2 L j
                 \<and> kz mod num_zdivs (mesh2 dmesh) = cz2 L j
              then pair_term L p j (x_shift L kx) (y_shift L ky) (z_shift L kz) q else 0)
          = (\<Sum>ky \<in> y_window L (cy1 L p).
               if kx mod num_xdivs (mesh2 dmesh) = cx2 L j
               then (if ky mod num_ydivs (mesh2 dmesh) = cy2 L j
                     then Fy (x_shift L kx) (y_shift L ky) else 0)
               else 0)"
    proof (rule sum.cong[OF refl])
      fix ky
      have "(\<Sum>kz \<in> z_window L (cz1 L p).
              if kx mod num_xdivs (mesh2 dmesh) = cx2 L j
                 \<and> ky mod num_ydivs (mesh2 dmesh) = cy2 L j
                 \<and> kz mod num_zdivs (mesh2 dmesh) = cz2 L j
              then pair_term L p j (x_shift L kx) (y_shift L ky) (z_shift L kz) q else 0)
            = (if kx mod num_xdivs (mesh2 dmesh) = cx2 L j
                  \<and> ky mod num_ydivs (mesh2 dmesh) = cy2 L j
               then (\<Sum>kz \<in> z_window L (cz1 L p).
                       if kz mod num_zdivs (mesh2 dmesh) = cz2 L j
                       then pair_term L p j (x_shift L kx) (y_shift L ky) (z_shift L kz) q
                       else 0)
               else 0)"
        by (auto intro: sum.cong)
      also have "\<dots> = (if kx mod num_xdivs (mesh2 dmesh) = cx2 L j
               then (if ky mod num_ydivs (mesh2 dmesh) = cy2 L j
                     then Fy (x_shift L kx) (y_shift L ky) else 0)
               else 0)"
        unfolding zs Fy_def by simp
      finally show "(\<Sum>kz \<in> z_window L (cz1 L p).
              if kx mod num_xdivs (mesh2 dmesh) = cx2 L j
                 \<and> ky mod num_ydivs (mesh2 dmesh) = cy2 L j
                 \<and> kz mod num_zdivs (mesh2 dmesh) = cz2 L j
              then pair_term L p j (x_shift L kx) (y_shift L ky) (z_shift L kz) q else 0)
            = (if kx mod num_xdivs (mesh2 dmesh) = cx2 L j
               then (if ky mod num_ydivs (mesh2 dmesh) = cy2 L j
                     then Fy (x_shift L kx) (y_shift L ky) else 0)
               else 0)" .
    qed
    also have "\<dots> = (if kx mod num_xdivs (mesh2 dmesh) = cx2 L j
                      then (\<Sum>ky \<in> y_window L (cy1 L p).
                              if ky mod num_ydivs (mesh2 dmesh) = cy2 L j
                              then Fy (x_shift L kx) (y_shift L ky) else 0)
                      else 0)"
      by (rule sum_if_const)
    also have "\<dots> = (if kx mod num_xdivs (mesh2 dmesh) = cx2 L j then Fx (x_shift L kx) else 0)"
      unfolding ys Fx_def by simp
    finally show "(\<Sum>ky \<in> y_window L (cy1 L p). \<Sum>kz \<in> z_window L (cz1 L p).
              if kx mod num_xdivs (mesh2 dmesh) = cx2 L j
                 \<and> ky mod num_ydivs (mesh2 dmesh) = cy2 L j
                 \<and> kz mod num_zdivs (mesh2 dmesh) = cz2 L j
              then pair_term L p j (x_shift L kx) (y_shift L ky) (z_shift L kz) q else 0)
          = (if kx mod num_xdivs (mesh2 dmesh) = cx2 L j then Fx (x_shift L kx) else 0)" .
  qed
  also have "\<dots> = (\<Sum>sx\<leftarrow>image_shifts (PBCs dmesh) (xperiod dmesh). Fx sx)"
    by (rule xs)
  finally show ?thesis unfolding Fx_def Fy_def .
qed

lemma wf_point_sum:
  assumes ok: "double_mesh_ok dmesh x1in y1in z1in x2in y2in z2in w2in r"
    and L: "L = wf_locals dmesh x1in y1in z1in x2in y2in z2in w2in r"
    and p: "p < length x1in"
  shows "(\<Sum>c \<in> {0..<ncells (mesh1 dmesh)}. cell1_term L c p q)
           = (\<Sum>j \<in> {..<length x2in}.
                \<Sum>sx\<leftarrow>image_shifts (PBCs dmesh) (xperiod dmesh).
                \<Sum>sy\<leftarrow>image_shifts (PBCs dmesh) (yperiod dmesh).
                \<Sum>sz\<leftarrow>image_shifts (PBCs dmesh) (zperiod dmesh). pair_term L p j sx sy sz q)"
proof -
  have "(\<Sum>c \<in> {0..<ncells (mesh1 dmesh)}. cell1_term L c p q)
          = (\<Sum>kx \<in> x_window L (cx1 L p). \<Sum>ky \<in> y_window L (cy1 L p).
             \<Sum>kz \<in> z_window L (cz1 L p). \<Sum>j \<in> {..<length x2in}.
               if kx mod num_xdivs (mesh2 dmesh) = cx2 L j
                  \<and> ky mod num_ydivs (mesh2 dmesh) = cy2 L j
                  \<and> kz mod num_zdivs (mesh2 dmesh) = cz2 L j
               then pair_term L p j (x_shift L kx) (y_shift L ky) (z_shift L kz) q else 0)"
    unfolding cell1_sum_single[OF ok L p] window_term_def visit_term_filter[OF ok L] ..
  also have "\<dots> = (\<Sum>j \<in> {..<length x2in}. \<Sum>kx \<in> x_window L (cx1 L p).
             \<Sum>ky \<in> y_window L (cy1 L p). \<Sum>kz \<in> z_window L (cz1 L p).
               if kx mod num_xdivs (mesh2 dmesh) = cx2 L j
                  \<and> ky mod num_ydivs (mesh2 dmesh) = cy2 L j
                  \<and> kz mod num_zdivs (mesh2 dmesh) = cz2 L j
               then pair_term L p j (x_shift L kx) (y_shift L ky) (z_shift L kz) q else 0)"
    by (rule sum_4_swap)
  also have "\<dots> = (\<Sum>j \<in> {..<length x2in}.
                \<Sum>sx\<leftarrow>image_shifts (PBCs dmesh) (xperiod dmesh).
                \<Sum>sy\<leftarrow>image_shifts (PBCs dmesh) (yperiod dmesh).
                \<Sum>sz\<leftarrow>image_shifts (PBCs dmesh) (zperiod dmesh). pair_term L p j sx sy sz q)"
  proof (rule sum.cong[OF refl])
    fix j assume "j \<in> {..<length x2in}"
    then have j: "j < length x2in" by simp
    show "(\<Sum>kx \<in> x_window L (cx1 L p). \<Sum>ky \<in> y_window L (cy1 L p).
             \<Sum>kz \<in> z_window L (cz1 L p).
               if kx mod num_xdivs (mesh2 dmesh) = cx2 L j
                  \<and> ky mod num_ydivs (mesh2 dmesh) = cy2 L j
                  \<and> kz mod num_zdivs (mesh2 dmesh) = cz2 L j
               then pair_term L p j (x_shift L kx) (y_shift L ky) (z_shift L kz) q else 0)
          = (\<Sum>sx\<leftarrow>image_shifts (PBCs dmesh) (xperiod dmesh).
             \<Sum>sy\<leftarrow>image_shifts (PBCs dmesh) (yperiod dmesh).
             \<Sum>sz\<leftarrow>image_shifts (PBCs dmesh) (zperiod dmesh). pair_term L p j sx sy sz q)"
      by (rule window_point_sum[OF ok L p j])
  qed
  finally show ?thesis .
qed

lemma image_step_slot:
  "acc_slot (image_step rsq x1 y1 z1 x2 y2 z2 w2 sx sy sz acc) q
     = acc_slot acc q + image_term rsq x1 y1 z1 x2 y2 z2 w2 sx sy sz q"
  by (simp add: acc_slot_def image_step_def image_term_def Let_def pair_slot_def tensor_slot_add)

lemma fold_slot:
  assumes "\<And>x acc. acc_slot (g x acc) q = acc_slot acc q + h x"
  shows "acc_slot (fold g xs acc) q = acc_slot acc q + (\<Sum>x\<leftarrow>xs. h x)"
  using assms by (induction xs arbitrary: acc) simp_all

lemma brute_force_point_slot:
  "acc_slot (brute_force_point dmesh x1in y1in z1in x2in y2in z2in w2in r i) q
     = (\<Sum>j\<leftarrow>[0..<length x2in].
        \<Sum>sx\<leftarrow>image_shifts (PBCs dmesh) (xperiod dmesh).
        \<Sum>sy\<leftarrow>image_shifts (PBCs dmesh) (yperiod dmesh).
        \<Sum>sz\<leftarrow>image_shifts (PBCs dmesh) (zperiod dmesh).
          image_term (r * r) (x1in ! i) (y1in ! i) (z1in ! i)
            (x2in ! j) (y2in ! j) (z2in ! j) (w2in ! j) sx sy sz q)"
proof -
  have z: "acc_slot (fold (\<lambda>sz. image_step (r * r) (x1in ! i) (y1in ! i) (z1in ! i)
                       (x2in ! j) (y2in ! j) (z2in ! j) (w2in ! j) sx sy sz)
                     (image_shifts (PBCs dmesh) (zperiod dmesh)) acc) q
             = acc_slot acc q
               + (\<Sum>sz\<leftarrow>image_shifts (PBCs dmesh) (zperiod dmesh).
                    image_term (r * r) (x1in ! i) (y1in ! i) (z1in ! i)
                      (x2in ! j) (y2in ! j) (z2in ! j) (w2in ! j) sx sy sz q)"
    for j sx sy acc
    by (rule fold_slot) (rule image_step_slot)
  have y: "acc_slot (fold (\<lambda>sy. fold (\<lambda>sz. image_step (r * r) (x1in ! i) (y1in ! i) (z1in ! i)
                       (x2in ! j) (y2in ! j) (z2in ! j) (w2in ! j) sx sy sz)
                     (image_shifts (PBCs dmesh) (zperiod dmesh)))
                   (image_shifts (PBCs dmesh) (yperiod dmesh)) acc) q
             = acc_slot acc q
               + (\<Sum>sy\<leftarrow>image_shifts (PBCs dmesh) (yperiod dmesh).
                  \<Sum>sz\<leftarrow>image_shifts (PBCs dmesh) (zperiod dmesh).
                    image_term (r * r) (x1in ! i) (y1in ! i) (z1in ! i)
                      (x2in ! j) (y2in ! j) (z2in ! j) (w2in ! j) sx sy sz q)"
    for j sx acc
    by (rule fold_slot) (rule z)
  have x: "acc_slot (fold (\<lambda>sx. fold (\<lambda>sy. fold (\<lambda>sz.
                       image_step (r * r) (x1in ! i) (y1in ! i) (z1in ! i)
                         (x2in ! j) (y2in ! j) (z2in ! j) (w2in ! j) sx sy sz)
                     (image_shifts (PBCs dmesh) (zperiod dmesh)))
                   (image_shifts (PBCs dmesh) (yperiod dmesh)))
                 (image_shifts (PBCs dmesh) (xperiod dmesh)) acc) q
             = acc_slot acc q
               + (\<Sum>sx\<leftarrow>image_shifts (PBCs dmesh) (xperiod dmesh).
                  \<Sum>sy\<leftarrow>image_shifts (PBCs dmesh) (yperiod dmesh).
                  \<Sum>sz\<leftarrow>image_shifts (PBCs dmesh) (zperiod dmesh).
                    image_term (r * r) (x1in ! i) (y1in ! i) (z1in ! i)
                      (x2in ! j) (y2in ! j) (z2in ! j) (w2in ! j) sx sy sz q)"
    for j acc
    by (rule fold_slot) (rule y)
  have "acc_slot (brute_force_point dmesh x1in y1in z1in x2in y2in z2in w2in r i) q
          = acc_slot (tensor_zero, 0) q
            + (\<Sum>j\<leftarrow>[0..<length x2in].
               \<Sum>sx\<leftarrow>image_shifts (PBCs dmesh) (xperiod dmesh).
               \<Sum>sy\<leftarrow>image_shifts (PBCs dmesh) (yperiod dmesh).
               \<Sum>sz\<leftarrow>image_shifts (PBCs dmesh) (zperiod dmesh).
                 image_term (r * r) (x1in ! i) (y1in ! i) (z1in ! i)
                   (x2in ! j) (y2in ! j) (z2in ! j) (w2in ! j) sx sy sz q)"
    unfolding brute_force_point_def by (rule fold_slot) (rule x)
  moreover have "acc_slot (tensor_zero, 0) q = 0"
    by (simp add: acc_slot_def tensor_slot_def tensor_zero_def)
  ultimately show ?thesis by simp
qed

lemma sum_perm_reindex:
  fixes G :: "nat \<Rightarrow> real"
  assumes d: "distinct idx" and s: "set idx = {0..<int n}" and l: "length idx = n"
  shows "(\<Sum>j \<in> {..<n}. G (nat (idx ! j))) = (\<Sum>j\<leftarrow>[0..<n]. G j)"
proof -
  have "(\<Sum>j \<in> {..<n}. G (nat (idx ! j))) = (\<Sum>j\<leftarrow>[0..<n]. G (nat (idx ! j)))"
    by (simp add: interv_sum_list_conv_sum_set_nat lessThan_atLeast0)
  also have "map (\<lambda>j. G (nat (idx ! j))) [0..<n] = map (\<lambda>k. G (nat k)) idx"
    unfolding l[symmetric] by (rule nth_equalityI) simp_all
  also have "(\<Sum>k\<leftarrow>idx. G (nat k)) = (\<Sum>k \<in> set idx. G (nat k))"
    by (rule sum_list_distinct_conv_sum_set[OF d])
  also have "\<dots> = (\<Sum>k \<in> {0..<int n}. G (nat k))" unfolding s ..
  also have "\<dots> = (\<Sum>j \<in> {..<n}. G j)"
    by (rule sum.reindex_bij_witness[of _ int nat]) auto
  also have "\<dots> = (\<Sum>j\<leftarrow>[0..<n]. G j)"
    by (simp add: interv_sum_list_conv_sum_set_nat lessThan_atLeast0)
  finally show ?thesis .
qed

lemma position_of_nth:
  "j \<in> set P \<Longrightarrow> 0 \<le> position_of j P \<and> nat (position_of j P) < length P
     \<and> P ! nat (position_of j P) = j"
proof (induction P)
  case Nil
  then show ?case by simp
next
  case (Cons k ks)
  show ?case
  proof (cases "k = j")
    case True
    then show ?thesis by simp
  next
    case False
    with Cons.prems have "j \<in> set ks" by simp
    from Cons.IH[OF this] False show ?thesis by (simp add: nat_add_distrib)
  qed
qed

lemma tensor_ext:
  assumes "\<And>q. q < 9 \<Longrightarrow> tensor_slot a q = tensor_slot b q"
  shows "a = b"
proof -
  note e = assms[of 0] assms[of 1] assms[of 2] assms[of 3] assms[of 4] assms[of 5]
    assms[of 6] assms[of 7] assms[of 8]
  from e show ?thesis by (cases a, cases b) (simp add: tensor_slot_def)
qed

lemma slot_zero:
  "p < n \<Longrightarrow> slot (replicate n tensor_zero, replicate n 0) p q = 0"
  by (simp add: slot_def tensor_slot_def tensor_zero_def)

lemma engine_loops_slots:
  assumes ok: "double_mesh_ok dmesh x1in y1in z1in x2in y2in z2in w2in r"
    and L: "L = wf_locals dmesh x1in y1in z1in x2in y2in z2in w2in r"
  shows "\<exists>s. engine_loops L (0, ncells (mesh1 dmesh)) = Inr s \<and> shape (length x1in) s
           \<and> (\<forall>p < length x1in. \<forall>q. slot s p q
                = acc_slot (brute_force_point dmesh x1in y1in z1in x2in y2in z2in w2in r
                             (nat (idx_sorted (mesh1 dmesh) ! p))) q)"
proof -
  from ok have m1: "mesh_ok (mesh1 dmesh) x1in y1in z1in"
    and m2: "mesh_ok (mesh2 dmesh) x2in y2in z2in"
    and w: "length w2in = length x2in"
    by (simp_all add: double_mesh_ok_def)
  note p1 = mesh_ok_perm[OF m1] and p2 = mesh_ok_perm[OF m2]
  from m1 have l1: "length y1in = length x1in" "length z1in = length x1in"
    and c1: "int (length (cell_id_indices (mesh1 dmesh))) = ncells (mesh1 dmesh) + 1"
    by (simp_all add: mesh_ok_def)
  from m2 have l2: "length y2in = length x2in" "length z2in = length x2in"
    by (simp_all add: mesh_ok_def)
  have lk: "locals_ok L" unfolding L by (rule wf_locals_ok[OF ok])
  have n1: "length (x1_sorted L) = length x1in" by (simp add: L wf_locals_def p1(1))
  have hi: "nat (ncells (mesh1 dmesh)) < length (cell1_indices L)"
  proof -
    have "cell1_indices L = cell_id_indices (mesh1 dmesh)" by (simp add: L wf_locals_def)
    moreover from m1 have "0 < num_xdivs (mesh1 dmesh)" "0 < num_ydivs (mesh1 dmesh)"
      "0 < num_zdivs (mesh1 dmesh)"
      and "ncells (mesh1 dmesh)
             = num_xdivs (mesh1 dmesh) * num_ydivs (mesh1 dmesh) * num_zdivs (mesh1 dmesh)"
      by (simp_all add: mesh_ok_def)
    then have "0 \<le> ncells (mesh1 dmesh)" by simp
    ultimately show ?thesis using c1 by (simp add: nat_less_iff)
  qed
  from engine_loops_adds[OF lk _ hi, of 0] obtain s where
    s: "engine_loops L (0, ncells (mesh1 dmesh)) = Inr s"
    and a: "adds (length x1in)
              (\<lambda>p q. \<Sum>c \<in> {0..<ncells (mesh1 dmesh)}. cell1_term L c p q)
              (replicate (length x1in) tensor_zero, replicate (length x1in) 0) s"
    unfolding n1 by auto
  have "slot s p q
          = acc_slot (brute_force_point dmesh x1in y1in z1in x2in y2in z2in w2in r
                       (nat (idx_sorted (mesh1 dmesh) ! p))) q"
    if p: "p < length x1in" for p q
  proof -
    define i where "i = nat (idx_sorted (mesh1 dmesh) ! p)"
    define G where "G j = (\<Sum>sx\<leftarrow>image_shifts (PBCs dmesh) (xperiod dmesh).
        \<Sum>sy\<leftarrow>image_shifts (PBCs dmesh) (yperiod dmesh).
        \<Sum>sz\<leftarrow>image_shifts (PBCs dmesh) (zperiod dmesh).
          image_term (r * r) (x1in ! i) (y1in ! i) (z1in ! i)
            (x2in ! j) (y2in ! j) (z2in ! j) (w2in ! j) sx sy sz q)" for j
    have pt: "pair_term L p j sx sy sz q
                = image_term (r * r) (x1in ! i) (y1in ! i) (z1in ! i)
                    (x2in ! nat (idx_sorted (mesh2 dmesh) ! j))
                    (y2in ! nat (idx_sorted (mesh2 dmesh) ! j))
                    (z2in ! nat (idx_sorted (mesh2 dmesh) ! j))
                    (w2in ! nat (idx_sorted (mesh2 dmesh) ! j)) sx sy sz q"
      if j: "j < length x2in" for j sx sy sz
    proof -
      have f: "x1_sorted L ! p = x1in ! i" "y1_sorted L ! p = y1in ! i"
        "z1_sorted L ! p = z1in ! i"
        "x2_sorted L ! j = x2in ! nat (idx_sorted (mesh2 dmesh) ! j)"
        "y2_sorted L ! j = y2in ! nat (idx_sorted (mesh2 dmesh) ! j)"
        "z2_sorted L ! j = z2in ! nat (idx_sorted (mesh2 dmesh) ! j)"
        "w2_sorted L ! j = w2in ! nat (idx_sorted (mesh2 dmesh) ! j)"
        "rsmooth_squared L = r * r"
        using p j p1(1) p2(1) by (simp_all add: L wf_locals_def i_def)
      show ?thesis unfolding pair_term_def image_term_def f ..
    qed
    from a p have "slot s p q = (\<Sum>c \<in> {0..<ncells (mesh1 dmesh)}. cell1_term L c p q)"
      by (simp add: adds_def slot_zero)
    also have "\<dots> = (\<Sum>j \<in> {..<length x2in}.
                \<Sum>sx\<leftarrow>image_shifts (PBCs dmesh) (xperiod dmesh).
                \<Sum>sy\<leftarrow>image_shifts (PBCs dmesh) (yperiod dmesh).
                \<Sum>sz\<leftarrow>image_shifts (PBCs dmesh) (zperiod dmesh). pair_term L p j sx sy sz q)"
      by (rule wf_point_sum[OF ok L p])
    also have "\<dots> = (\<Sum>j \<in> {..<length x2in}. G (nat (idx_sorted (mesh2 dmesh) ! j)))"
      unfolding G_def by (rule sum.cong[OF refl]) (simp add: pt)
    also have "\<dots> = (\<Sum>j\<leftarrow>[0..<length x2in]. G j)"
      by (rule sum_perm_reindex[OF p2(2,3,1)])
    also have "\<dots> = acc_slot (brute_force_point dmesh x1in y1in z1in x2in y2in z2in w2in r i) q"
      unfolding G_def brute_force_point_slot ..
    finally show ?thesis unfolding i_def .
  qed
  with s adds_shape[OF a] show ?thesis by blast
qed

lemma unsort_permutation:
  assumes d: "set idx = {0..<int n}" and l: "length idx = n" and sh: "shape n s"
  shows "unsort idx s
           = Inr (map (\<lambda>i. fst s ! nat (position_of (int i) idx)) [0..<n],
                  map (\<lambda>i. snd s ! nat (position_of (int i) idx)) [0..<n])"
proof -
  have u: "unsorting_indices idx = map (\<lambda>i. position_of (int i) idx) [0..<n]"
    unfolding unsorting_indices_def l
    by (rule nth_equalityI) simp_all
  have r: "0 \<le> position_of (int i) idx \<and> position_of (int i) idx < int n" if "i < n" for i
  proof -
    from that d have "int i \<in> set idx" by simp
    from position_of_nth[OF this] l show ?thesis by linarith
  qed
  from sh have ls: "length (fst s) = n" "length (snd s) = n" by (simp_all add: shape_def)
  have "np_take (snd s) (unsorting_indices idx)
          = Inr (map (\<lambda>k. snd s ! nat k) (unsorting_indices idx))"
    by (rule np_take_in_range) (auto simp: u ls r)
  moreover have "np_take (fst s) (unsorting_indices idx)
          = Inr (map (\<lambda>k. fst s ! nat k) (unsorting_indices idx))"
    by (rule np_take_in_range) (auto simp: u ls r)
  ultimately show ?thesis by (simp add: unsort_def Let_def u comp_def)
qed

lemma engine_refines_brute_force:
  assumes ok: "double_mesh_ok dmesh x1in y1in z1in x2in y2in z2in w2in r"
  shows "inertia_tensor_per_object_engine dmesh x1in y1in z1in x2in y2in z2in w2in r
           (0, ncells (mesh1 dmesh))
         = Inr (brute_force dmesh x1in y1in z1in x2in y2in z2in w2in r)"
proof -
  define L where "L = wf_locals dmesh x1in y1in z1in x2in y2in z2in w2in r"
  define idx where "idx = idx_sorted (mesh1 dmesh)"
  define n where "n = length x1in"
  from ok have m1: "mesh_ok (mesh1 dmesh) x1in y1in z1in" by (simp add: double_mesh_ok_def)
  note p1 = mesh_ok_perm[OF m1, folded idx_def n_def]
  from engine_loops_slots[OF ok L_def] obtain s where
    s: "engine_loops L (0, ncells (mesh1 dmesh)) = Inr s" and sh: "shape n s"
    and sl: "\<And>p q. p < n \<Longrightarrow> slot s p q
                = acc_slot (brute_force_point dmesh x1in y1in z1in x2in y2in z2in w2in r
                             (nat (idx ! p))) q"
    unfolding idx_def n_def by blast
  from sh have ls: "length (fst s) = n" "length (snd s) = n" by (simp_all add: shape_def)
  have pos: "nat (position_of (int i) idx) < n \<and> nat (idx ! nat (position_of (int i) idx)) = i"
    if "i < n" for i
  proof -
    from that p1(3) have "int i \<in> set idx" by simp
    from position_of_nth[OF this] p1(1) show ?thesis by simp
  qed
  have t: "fst s ! nat (position_of (int i) idx)
             = fst (brute_force_point dmesh x1in y1in z1in x2in y2in z2in w2in r i)"
    if i: "i < n" for i
  proof (rule tensor_ext)
    fix q :: nat assume q: "q < 9"
    from sl[of "nat (position_of (int i) idx)" q] pos[OF i] q
    show "tensor_slot (fst s ! nat (position_of (int i) idx)) q
            = tensor_slot (fst (brute_force_point dmesh x1in y1in z1in x2in y2in z2in w2in r i)) q"
      by (simp add: slot_def acc_slot_def)
  qed
  have v: "snd s ! nat (position_of (int i) idx)
             = snd (brute_force_point dmesh x1in y1in z1in x2in y2in z2in w2in r i)"
    if i: "i < n" for i
    using sl[of "nat (position_of (int i) idx)" 9] pos[OF i]
    by (simp add: slot_def acc_slot_def)
  have "unsort idx s = Inr (brute_force dmesh x1in y1in z1in x2in y2in z2in w2in r)"
    unfolding unsort_permutation[OF p1(3,1) sh] brute_force_def n_def[symmetric]
    by (simp add: t v)
  then show ?thesis
    unfolding inertia_tensor_per_object_engine_def engine_locals_wf[OF ok] L_def[symmetric]
    by (simp add: s idx_def)
qed

lemma brute_force_nonperiodic:
  assumes "\<not> PBCs dmesh"
  shows "brute_force dmesh x1in y1in z1in x2in y2in z2in w2in r
           = direct_sum x1in y1in z1in x2in y2in z2in w2in r"
  using assms
  by (simp add: brute_force_def brute_force_point_def direct_sum_def direct_point_def
        image_shifts_def)

lemma axis_ok_period:
  assumes ax: "axis_ok pbcs period search_length num1 num2 size1 size2 r"
    and pos: "0 < num1" "0 < num2" "0 < size2" and pb: "pbcs"
  shows "2 * \<bar>r\<bar> < period"
proof -
  from ax pb have n: "num2 = (num2 div num1) * num1" and r: "\<bar>r\<bar> \<le> search_length"
    and w: "num2 div num1 + 2 * \<lceil>search_length / size2\<rceil> \<le> num2"
    and p: "period = real_of_int num2 * size2"
    by (simp_all add: axis_ok_def)
  have "1 \<le> num2 div num1"
  proof (rule ccontr)
    assume "\<not> 1 \<le> num2 div num1"
    then have "num2 div num1 \<le> 0" by simp
    with pos(1) have "(num2 div num1) * num1 \<le> 0" by (simp add: mult_le_0_iff)
    with n pos(2) show False by simp
  qed
  with w have "2 * \<lceil>search_length / size2\<rceil> \<le> num2 - 1" by simp
  then have "real_of_int (2 * \<lceil>search_length / size2\<rceil>) \<le> real_of_int (num2 - 1)"
    by (rule of_int_le_iff[THEN iffD2])
  then have c: "2 * real_of_int \<lceil>search_length / size2\<rceil> \<le> real_of_int num2 - 1" by simp
  have "search_length / size2 \<le> real_of_int \<lceil>search_length / size2\<rceil>" by (rule le_of_int_ceiling)
  with c have "2 * (search_length / size2) \<le> real_of_int num2 - 1" by linarith
  then have "2 * search_length / size2 \<le> real_of_int num2 - 1" by simp
  with pos(3) have "2 * search_length \<le> (real_of_int num2 - 1) * size2"
    by (simp only: pos_divide_le_eq)
  also have "\<dots> = period - size2" by (simp add: p algebra_simps)
  finally show ?thesis using r pos(3) by linarith
qed

lemma shift_unique:
  assumes ax: "axis_ok pbcs period search_length num1 num2 size1 size2 r"
    and pos: "0 < num1" "0 < num2" "0 < size2"
    and s: "s \<in> set (image_shifts pbcs period)" "s' \<in> set (image_shifts pbcs period)"
    and d: "(a - s - b) * (a - s - b) < r * r" "(a - s' - b) * (a - s' - b) < r * r"
  shows "s = s'"
proof (cases pbcs)
  case False
  with s show ?thesis by (simp add: image_shifts_def)
next
  case True
  note P = axis_ok_period[OF ax pos True]
  from square_less_abs[OF d(1)] square_less_abs[OF d(2)]
  have "\<bar>a - s - b\<bar> < \<bar>r\<bar>" "\<bar>a - s' - b\<bar> < \<bar>r\<bar>" .
  with P have "\<bar>s - s'\<bar> < period" by linarith
  moreover from s True have "s = - period \<or> s = 0 \<or> s = period"
    "s' = - period \<or> s' = 0 \<or> s' = period"
    by (simp_all add: image_shifts_def)
  ultimately show ?thesis by auto
qed

lemma distinct_image_shifts:
  assumes "pbcs \<Longrightarrow> 0 < period"
  shows "distinct (image_shifts pbcs period)"
  using assms by (auto simp: image_shifts_def)

lemma filter_unique_length:
  assumes "distinct xs"
    and "\<And>a b. a \<in> set xs \<Longrightarrow> b \<in> set xs \<Longrightarrow> P a \<Longrightarrow> P b \<Longrightarrow> a = b"
  shows "length (filter P xs) \<le> 1"
  using assms
proof (induction xs)
  case Nil
  then show ?case by simp
next
  case (Cons x xs)
  have u: "\<And>a b. a \<in> set xs \<Longrightarrow> b \<in> set xs \<Longrightarrow> P a \<Longrightarrow> P b \<Longrightarrow> a = b"
    using Cons.prems(2) by simp
  from Cons.prems(1) have dx: "distinct xs" and nx: "x \<notin> set xs" by simp_all
  show ?case
  proof (cases "P x")
    case False
    with Cons.IH[OF dx u] show ?thesis by simp
  next
    case True
    have "filter P xs = []"
    proof (rule ccontr)
      assume "filter P xs \<noteq> []"
      then obtain y where y: "y \<in> set xs" "P y"
        by (auto simp: filter_empty_conv)
      from Cons.prems(2)[of x y] y True have "x = y" by simp
      with nx y(1) show False by simp
    qed
    with True show ?thesis by simp
  qed
qed

lemma images_unique:
  assumes ok: "double_mesh_ok dmesh x1in y1in z1in x2in y2in z2in w2in r"
  shows "length (images_within dmesh x1in y1in z1in x2in y2in z2in r i j) \<le> 1"
proof -
  note ax = axis_ok_fields[OF ok]
  have pp: "0 < xperiod dmesh" "0 < yperiod dmesh" "0 < zperiod dmesh" if "PBCs dmesh"
    using axis_ok_period[OF ax(1) ax(4) ax(7) ax(10) that]
      axis_ok_period[OF ax(2) ax(5) ax(8) ax(11) that]
      axis_ok_period[OF ax(3) ax(6) ax(9) ax(12) that]
    by linarith+
  have dist: "distinct (List.product (image_shifts (PBCs dmesh) (xperiod dmesh))
                (List.product (image_shifts (PBCs dmesh) (yperiod dmesh))
                   (image_shifts (PBCs dmesh) (zperiod dmesh))))"
    by (intro distinct_product distinct_image_shifts pp)
  show ?thesis
    unfolding images_within_def
  proof (rule filter_unique_length[OF dist])
    fix a b :: "real \<times> real \<times> real"
    obtain sx sy sz where a: "a = (sx, sy, sz)" by (cases a)
    obtain tx ty tz where b: "b = (tx, ty, tz)" by (cases b)
    define dx dy dz where "dx s = (x1in ! i - s - x2in ! j) * (x1in ! i - s - x2in ! j)"
      and "dy s = (y1in ! i - s - y2in ! j) * (y1in ! i - s - y2in ! j)"
      and "dz s = (z1in ! i - s - z2in ! j) * (z1in ! i - s - z2in ! j)" for s
    have nn: "0 \<le> dx s" "0 \<le> dy s" "0 \<le> dz s" for s
      by (simp_all add: dx_def dy_def dz_def)
    assume "a \<in> set (List.product (image_shifts (PBCs dmesh) (xperiod dmesh))
                (List.product (image_shifts (PBCs dmesh) (yperiod dmesh))
                   (image_shifts (PBCs dmesh) (zperiod dmesh))))"
      and "b \<in> set (List.product (image_shifts (PBCs dmesh) (xperiod dmesh))
                (List.product (image_shifts (PBCs dmesh) (yperiod dmesh))
                   (image_shifts (PBCs dmesh) (zperiod dmesh))))"
    then have m: "sx \<in> set (image_shifts (PBCs dmesh) (xperiod dmesh))"
      "sy \<in> set (image_shifts (PBCs dmesh) (yperiod dmesh))"
      "sz \<in> set (image_shifts (PBCs dmesh) (zperiod dmesh))"
      "tx \<in> set (image_shifts (PBCs dmesh) (xperiod dmesh))"
      "ty \<in> set (image_shifts (PBCs dmesh) (yperiod dmesh))"
      "tz \<in> set (image_shifts (PBCs dmesh) (zperiod dmesh))"
      by (simp_all add: a b)
    assume "case a of (sx, sy, sz) \<Rightarrow>
              (x1in ! i - sx - x2in ! j) * (x1in ! i - sx - x2in ! j)
            + (y1in ! i - sy - y2in ! j) * (y1in ! i - sy - y2in ! j)
            + (z1in ! i - sz - z2in ! j) * (z1in ! i - sz - z2in ! j) < r * r"
      and "case b of (sx, sy, sz) \<Rightarrow>
              (x1in ! i - sx - x2in ! j) * (x1in ! i - sx - x2in ! j)
            + (y1in ! i - sy - y2in ! j) * (y1in ! i - sy - y2in ! j)
            + (z1in ! i - sz - z2in ! j) * (z1in ! i - sz - z2in ! j) < r * r"
    then have "dx sx + dy sy + dz sz < r * r" "dx tx + dy ty + dz tz < r * r"
      by (simp_all add: a b dx_def dy_def dz_def)
    with nn[of sx] nn[of sy] nn[of sz] nn[of tx] nn[of ty] nn[of tz]
    have l: "dx sx < r * r" "dy sy < r * r" "dz sz < r * r"
      "dx tx < r * r" "dy ty < r * r" "dz tz < r * r"
      by linarith+
    have "sx = tx"
      by (rule shift_unique[OF ax(1) ax(4) ax(7) ax(10) m(1) m(4)
            l(1)[unfolded dx_def] l(4)[unfolded dx_def]])
    moreover have "sy = ty"
      by (rule shift_unique[OF ax(2) ax(5) ax(8) ax(11) m(2) m(5)
            l(2)[unfolded dy_def] l(5)[unfolded dy_def]])
    moreover have "sz = tz"
      by (rule shift_unique[OF ax(3) ax(6) ax(9) ax(12) m(3) m(6)
            l(3)[unfolded dz_def] l(6)[unfolded dz_def]])
    ultimately show "a = b" by (simp add: a b)
  qed
qed









subsection \<open>What the engine writes to\<close>

lemma frame_lift: "(\<And>v. r = Inr v \<Longrightarrow> Q v) \<Longrightarrow> frame B Q (lift_h r)"
  by (auto simp: frame_def lift_h_def)

lemma frame_lift_any: "frame B (\<lambda>_. True) (lift_h r)"
  by (auto simp: frame_def lift_h_def)

lemma frame_unchecked: "frame B (\<lambda>_. True) (unchecked_h r)"
  by (auto simp: frame_def unchecked_h_def split: sum.splits)

lemma frame_bind:
  assumes m: "frame B Q m" and f: "\<And>v. Q v \<Longrightarrow> frame B R (f v)"
  shows "frame B R (bind_h m f)"
  unfolding frame_def
proof (intro allI impI)
  fix h :: heap and r h'
  assume B: "B \<le> length h" and run: "bind_h m f h = Some (r, h')"
  from run obtain r1 h1 where mh: "m h = Some (r1, h1)"
    by (cases "m h") (auto simp: bind_h_def)
  from m B mh have 1: "B \<le> length h1" "take B h1 = take B h" "\<And>v. r1 = Inr v \<Longrightarrow> Q v"
    by (auto simp: frame_def)
  show "B \<le> length h' \<and> take B h' = take B h \<and> (\<forall>v. r = Inr v \<longrightarrow> R v)"
  proof (cases r1)
    case (Inl e)
    with mh run 1 show ?thesis by (auto simp: bind_h_def)
  next
    case (Inr v)
    with mh run have "f v h1 = Some (r, h')" by (simp add: bind_h_def)
    with f[OF 1(3)[OF Inr]] 1(1)
    have "B \<le> length h'" "take B h' = take B h1" "\<forall>w. r = Inr w \<longrightarrow> R w"
      by (auto simp: frame_def)
    with 1(2) show ?thesis by simp
  qed
qed

lemma frame_bind_any:
  assumes "frame B (\<lambda>_. True) m" and "\<And>v. frame B R (f v)"
  shows "frame B R (bind_h m f)"
  using assms(1) by (rule frame_bind) (rule assms(2))

lemma frame_weaken: "frame B Q m \<Longrightarrow> frame B (\<lambda>_. True) m"
  by (simp add: frame_def)

lemma frame_if:
  "(c \<Longrightarrow> frame B Q m) \<Longrightarrow> (\<not> c \<Longrightarrow> frame B Q n) \<Longrightarrow> frame B Q (if c then m else n)"
  by simp

lemma frame_for_each:
  assumes "\<And>i. frame B (\<lambda>_. True) (body i)"
  shows "frame B (\<lambda>_. True) (for_each_h xs body)"
  by (induction xs) (auto intro: frame_lift_any frame_bind_any assms)

lemma frame_new: "frame B (\<lambda>a. B \<le> a) (h_new v)"
  by (auto simp: frame_def h_new_def)

lemma frame_new_any: "frame B (\<lambda>_. True) (h_new v)"
  by (rule frame_weaken[OF frame_new])

lemma frame_bind_new:
  assumes "\<And>a. B \<le> a \<Longrightarrow> frame B R (f a)"
  shows "frame B R (bind_h (h_new v) f)"
  using frame_new by (rule frame_bind) (rule assms)

lemma frame_load: "frame B (\<lambda>_. True) (h_load a)"
  by (auto simp: frame_def h_load_def split: if_splits)

lemma frame_store: "B \<le> a \<Longrightarrow> frame B (\<lambda>_. True) (h_store a v)"
  by (auto simp: frame_def h_store_def split: if_splits)

lemma frame_floats: "frame B (\<lambda>_. True) (h_floats a)"
  unfolding h_floats_def by (intro frame_bind_any frame_load frame_lift_any)

lemma frame_tensors: "frame B (\<lambda>_. True) (h_tensors a)"
  unfolding h_tensors_def by (intro frame_bind_any frame_load frame_lift_any)

lemma frame_take: "frame B (\<lambda>_. True) (h_take a idx)"
  unfolding h_take_def by (intro frame_bind_any frame_load frame_lift_any frame_new_any)

lemma frame_view: "frame B (\<lambda>_. True) (h_view a)"
  unfolding h_view_def by (intro frame_bind_any frame_floats frame_lift_any)

lemma frame_sorted_copy: "frame B (\<lambda>_. True) (sorted_copy a idx)"
  unfolding sorted_copy_def by (intro frame_bind_any frame_take frame_view)

lemma frame_hv_get: "frame B (\<lambda>_. True) (hv_get v i)"
  unfolding hv_get_def by (intro frame_bind_any frame_floats frame_unchecked)

lemma frame_tensor_iadd: "B \<le> a \<Longrightarrow> frame B (\<lambda>_. True) (h_tensor_iadd a p f)"
  unfolding h_tensor_iadd_def
  by (intro frame_bind_any frame_tensors frame_unchecked frame_store)

lemma frame_float_iadd: "B \<le> a \<Longrightarrow> frame B (\<lambda>_. True) (h_float_iadd a p f)"
  unfolding h_float_iadd_def
  by (intro frame_bind_any frame_floats frame_unchecked frame_store)

lemma accumulate_frame:
  assumes "B \<le> h_inertia_tensor L" "B \<le> h_sum_weights L"
  shows "frame B (\<lambda>_. True) (accumulate_h L p dx dy dz w2)"
  unfolding accumulate_h_def Let_def
  by (intro frame_bind_any frame_tensor_iadd frame_float_iadd assms)

lemma pair_step_frame:
  assumes "B \<le> h_inertia_tensor L" "B \<le> h_sum_weights L"
  shows "frame B (\<lambda>_. True)
           (pair_step_h L p x1tmp y1tmp z1tmp x_icell2 y_icell2 z_icell2 w_icell2 j)"
  unfolding pair_step_h_def Let_def
  by (intro frame_bind_any frame_hv_get frame_if frame_lift_any accumulate_frame assms)

lemma point_step_frame:
  assumes "B \<le> h_inertia_tensor L" "B \<le> h_sum_weights L"
  shows "frame B (\<lambda>_. True)
           (point_step_h L ifirst1 x_icell1 y_icell1 z_icell1 x2shift y2shift z2shift
              x_icell2 y_icell2 z_icell2 w_icell2 Nj i)"
  unfolding point_step_h_def Let_def
  by (intro frame_bind_any frame_hv_get frame_for_each pair_step_frame assms)

lemma cell_pair_frame:
  assumes "B \<le> h_inertia_tensor L" "B \<le> h_sum_weights L"
  shows "frame B (\<lambda>_. True)
           (cell_pair_h L ifirst1 Ni x_icell1 y_icell1 z_icell1 ix2 iy2 iz2
              x2shift y2shift z2shift)"
  unfolding cell_pair_h_def Let_def
  by (intro frame_bind_any frame_if frame_lift_any frame_unchecked frame_for_each
        point_step_frame assms)

lemma z_step_frame:
  assumes "B \<le> h_inertia_tensor L" "B \<le> h_sum_weights L"
  shows "frame B (\<lambda>_. True)
           (z_step_h L ifirst1 Ni x_icell1 y_icell1 z_icell1 ix2 x2shift iy2 y2shift nonPBC_iz2)"
  unfolding z_step_h_def Let_def
  by (intro frame_bind_any frame_lift_any cell_pair_frame assms)

lemma y_step_frame:
  assumes "B \<le> h_inertia_tensor L" "B \<le> h_sum_weights L"
  shows "frame B (\<lambda>_. True)
           (y_step_h L ifirst1 Ni x_icell1 y_icell1 z_icell1 leftmost_iz2 rightmost_iz2
              ix2 x2shift nonPBC_iy2)"
  unfolding y_step_h_def Let_def
  by (intro frame_bind_any frame_lift_any frame_for_each z_step_frame assms)

lemma x_step_frame:
  assumes "B \<le> h_inertia_tensor L" "B \<le> h_sum_weights L"
  shows "frame B (\<lambda>_. True)
           (x_step_h L ifirst1 Ni x_icell1 y_icell1 z_icell1 leftmost_iy2 rightmost_iy2
              leftmost_iz2 rightmost_iz2 nonPBC_ix2)"
  unfolding x_step_h_def Let_def
  by (intro frame_bind_any frame_lift_any frame_for_each y_step_frame assms)

lemma cell1_step_frame:
  assumes "B \<le> h_inertia_tensor L" "B \<le> h_sum_weights L"
  shows "frame B (\<lambda>_. True) (cell1_step_h L icell1)"
  unfolding cell1_step_h_def Let_def
  by (intro frame_bind_any frame_if frame_lift_any frame_unchecked frame_for_each
        x_step_frame assms)

lemma engine_locals_frame:
  "frame B (\<lambda>L. B \<le> h_inertia_tensor L \<and> B \<le> h_sum_weights L)
     (engine_locals_h double_mesh x1in y1in z1in x2in y2in z2in weights2in rsmooth)"
  unfolding engine_locals_h_def
  by (intro frame_bind_new frame_bind_any frame_sorted_copy frame_lift_any)
     (simp add: frame_def lift_h_def)

lemma unsort_frame: "frame B (\<lambda>_. True) (unsort_h idx L)"
  unfolding unsort_h_def Let_def
  by (intro frame_bind_any frame_load frame_new_any frame_take frame_lift_any)

lemma engine_frame:
  "frame B (\<lambda>_. True)
     (inertia_tensor_per_object_engine_h double_mesh x1in y1in z1in x2in y2in z2in weights2in
        rsmooth cell1_tuple)"
  unfolding inertia_tensor_per_object_engine_h_def
proof (rule frame_bind[OF engine_locals_frame])
  fix L :: hlocals
  assume "B \<le> h_inertia_tensor L \<and> B \<le> h_sum_weights L"
  then have L: "B \<le> h_inertia_tensor L" "B \<le> h_sum_weights L" by simp_all
  show "frame B (\<lambda>_. True)
          (bind_h (for_each_h (py_range (fst cell1_tuple) (snd cell1_tuple)) (cell1_step_h L))
             (\<lambda>_. unsort_h (idx_sorted (mesh1 double_mesh)) L))"
    by (intro frame_bind_any frame_for_each cell1_step_frame unsort_frame L)
qed

lemma frameD:
  assumes "frame B Q m" "B \<le> length h" "m h = Some (r, h')"
  shows "take B h' = take B h"
  using assms unfolding frame_def by blast

section \<open>The claims\<close>

subsection \<open>C3: a negative smoothing radius\<close>

text \<open>
  Claim C3 says that a negative smoothing radius is reported as a precondition violation
  before the main loop. The engine has no such check: line 49 squares the radius and
  nothing else reads it. In the periodic box, the radius \<open>-1\<close> gives a result, the one
  of the radius \<open>1\<close>.
\<close>

theorem negative_radius_gives_result:
  "inertia_tensor_per_object_engine wrap_dm [1 / 2] [0] [0] [96 / 10] [0] [0] [1] (- 1) (0, 64)
     = Inr ([tensor_zero\<lparr>t00 := 81 / 100\<rparr>], [1])"
  by code_simp

text \<open>
  C3 as amended: the engine reads the radius through its square only, so for every input
  it returns for \<open>- rsmooth\<close> exactly what it returns for \<open>rsmooth\<close>, result or error; no
  radius is rejected for its sign.
\<close>

theorem radius_sign_ignored:
  "inertia_tensor_per_object_engine double_mesh x1in y1in z1in x2in y2in z2in weights2in
     (- rsmooth) cell1_tuple
   = inertia_tensor_per_object_engine double_mesh x1in y1in z1in x2in y2in z2in weights2in
       rsmooth cell1_tuple"
  by (simp add: inertia_tensor_per_object_engine_def engine_locals_def)

subsection \<open>C4: the distance test is strict\<close>

text \<open>
  Claim C4: a pair whose squared separation equals the squared smoothing radius is
  excluded. In the body of the innermost loop (lines 199 to 228), when the four reads of
  the point \<open>j\<close> succeed and the squared separation equals the squared radius exactly, the
  iteration leaves both output arrays as they were: nothing is added to the tensor or to
  the weight sum.
\<close>

theorem pair_at_radius_excluded:
  assumes "mv_get x_icell2 j = Inr x2" and "mv_get y_icell2 j = Inr y2"
    and "mv_get z_icell2 j = Inr z2" and "mv_get w_icell2 j = Inr w2"
    and "(x1tmp - x2) * (x1tmp - x2) + (y1tmp - y2) * (y1tmp - y2) + (z1tmp - z2) * (z1tmp - z2)
           = rsmooth * rsmooth"
  shows "pair_step (rsmooth * rsmooth) p x1tmp y1tmp z1tmp x_icell2 y_icell2 z_icell2 w_icell2 j s
           = Inr s"
  using assms by (simp add: pair_step_def Let_def)

theorem pair_at_radius_excluded_witness:
  "mv_get [3] 0 = Inr (3 :: real) \<and> mv_get [5] 0 = Inr (5 :: real)
     \<and> (4 - 3) * (4 - 3) + (0 - 0) * (0 - 0) + (0 - 0) * (0 - 0) = (1 :: real) * 1
     \<and> pair_step (1 * 1) 0 4 0 0 [3] [0] [0] [5] 0 ([tensor_zero], [0]) = Inr ([tensor_zero], [0])"
proof -
  have g: "mv_get [3] 0 = Inr (3 :: real)" "mv_get [0] 0 = Inr (0 :: real)"
    "mv_get [5] 0 = Inr (5 :: real)"
    by (simp_all add: mv_get_def)
  have d: "(4 - 3) * (4 - 3) + (0 - 0) * (0 - 0) + (0 - 0) * (0 - 0) = (1 :: real) * 1"
    by simp
  from pair_at_radius_excluded[OF g(1) g(2) g(2) g(3) d, of 0 "([tensor_zero], [0])"] g d
  show ?thesis by simp
qed

text \<open>
  The whole engine on the periodic box, with the smoothing radius equal to the wrapped
  separation 0.9 of the only pair: the pair adds nothing.
\<close>

lemma radius_equal_to_separation:
  "inertia_tensor_per_object_engine wrap_dm [1 / 2] [0] [0] [96 / 10] [0] [0] [1] (9 / 10) (0, 64)
     = Inr ([tensor_zero], [0])"
  by code_simp

subsection \<open>C5: the periodic wrap scenario\<close>

text \<open>
  Claim C5: in a box of period 10 with periodicity enabled, a primary point at
  \<open>x = 0.5\<close> and a secondary point at \<open>x = 9.6\<close> of weight 1, with smoothing radius 1. The
  window of the primary cell reaches the unwrapped index \<open>-1\<close>, which wraps to the cell 3
  of the secondary point with the shift \<open>-10\<close>; the separation used is
  \<open>0.5 + 10 - 9.6 = 0.9\<close>, the pair is counted, the weight sum is 1 and the only non-zero
  entry of the tensor is \<open>0.9\<^sup>2 = 0.81\<close>.
\<close>

theorem periodic_wrap_scenario:
  "inertia_tensor_per_object_engine wrap_dm [1 / 2] [0] [0] [96 / 10] [0] [0] [1] 1 (0, 64)
     = Inr ([tensor_zero\<lparr>t00 := 81 / 100\<rparr>], [1])
   \<and> shift_of True 10 4 (- 1) = - 10
   \<and> 1 / 2 - shift_of True 10 4 (- 1) - 96 / 10 = 9 / 10"
proof -
  have "inertia_tensor_per_object_engine wrap_dm [1 / 2] [0] [0] [96 / 10] [0] [0] [1] 1 (0, 64)
     = Inr ([tensor_zero\<lparr>t00 := 81 / 100\<rparr>], [1])"
    by code_simp
  then show ?thesis by (simp add: shift_of_def)
qed

subsection \<open>C6: the tensors are symmetric\<close>

text \<open>
  Claim C6: for every input on which the engine returns, and every primary point \<open>i\<close> of the
  returned tensor array, the entries \<open>[0][1]\<close> and \<open>[1][0]\<close>, \<open>[0][2]\<close> and \<open>[2][0]\<close>, and
  \<open>[1][2]\<close> and \<open>[2][1]\<close> are equal.
\<close>

theorem tensor_symmetric:
  assumes "inertia_tensor_per_object_engine double_mesh x1in y1in z1in x2in y2in z2in weights2in
             rsmooth cell1_tuple = Inr (tensor, sum_weights)"
    and "i < length tensor"
  shows "t01 (tensor ! i) = t10 (tensor ! i) \<and> t02 (tensor ! i) = t20 (tensor ! i)
           \<and> t12 (tensor ! i) = t21 (tensor ! i)"
proof -
  from assms(1) obtain L s where "engine_loops L cell1_tuple = Inr s"
    and u: "unsort (idx_sorted (mesh1 double_mesh)) s = Inr (tensor, sum_weights)"
    by (auto simp: inertia_tensor_per_object_engine_def bind_r_eq_Inr)
  then have "list_all symmetric3 (fst s)" by (simp add: engine_loops_symmetric)
  moreover have "tensor ! i \<in> set (fst s)"
    using unsort_fst[OF u, of "tensor ! i"] assms(2) by simp
  ultimately have "symmetric3 (tensor ! i)"
    by (simp add: list_all_iff)
  then show ?thesis by (simp add: symmetric3_def)
qed

theorem tensor_symmetric_witness:
  "inertia_tensor_per_object_engine near_dm [1 / 2] [1 / 2] [1 / 2] [1] [3 / 4] [1 / 4] [2] 1 (0, 64)
     = Inr ([\<lparr>t00 = 1 / 2, t01 = 1 / 4, t02 = - 1 / 4, t10 = 1 / 4, t11 = 1 / 8, t12 = - 1 / 8,
              t20 = - 1 / 4, t21 = - 1 / 8, t22 = 1 / 8\<rparr>], [2])
   \<and> t01 \<lparr>t00 = 1 / 2, t01 = 1 / 4, t02 = - 1 / 4, t10 = 1 / 4, t11 = 1 / 8, t12 = - 1 / 8,
          t20 = - 1 / 4, t21 = - 1 / 8, t22 = 1 / 8 :: real\<rparr> = 1 / 4"
proof -
  have e: "inertia_tensor_per_object_engine near_dm [1 / 2] [1 / 2] [1 / 2] [1] [3 / 4] [1 / 4]
             [2] 1 (0, 64)
     = Inr ([\<lparr>t00 = 1 / 2, t01 = 1 / 4, t02 = - 1 / 4, t10 = 1 / 4, t11 = 1 / 8, t12 = - 1 / 8,
              t20 = - 1 / 4, t21 = - 1 / 8, t22 = 1 / 8\<rparr>], [2])"
    by code_simp
  from tensor_symmetric[OF e, of 0] e show ?thesis by simp
qed

subsection \<open>C7: splitting the range of primary cells\<close>

text \<open>
  Claim C7: for a split of a range of primary cell ids \<open>[lo, hi)\<close> at \<open>mid\<close>, when the
  engine returns on \<open>[lo, mid)\<close> and on \<open>[mid, hi)\<close>, it returns on \<open>[lo, hi)\<close>, and its
  two arrays there are the entry-wise sums of the arrays of the two partial runs. The full
  range is the case \<open>lo = 0\<close> and \<open>hi\<close> the number of cells of mesh 1.
\<close>

theorem range_partition_additive:
  assumes "lo \<le> mid" and "mid \<le> hi"
    and A: "inertia_tensor_per_object_engine double_mesh x1in y1in z1in x2in y2in z2in weights2in
             rsmooth (lo, mid) = Inr (tensorA, sum_weightsA)"
    and B: "inertia_tensor_per_object_engine double_mesh x1in y1in z1in x2in y2in z2in weights2in
             rsmooth (mid, hi) = Inr (tensorB, sum_weightsB)"
  shows "inertia_tensor_per_object_engine double_mesh x1in y1in z1in x2in y2in z2in weights2in
           rsmooth (lo, hi)
         = Inr (map2 tensor_add tensorA tensorB, map2 (+) sum_weightsA sum_weightsB)"
proof -
  from A obtain L sA where
    L: "engine_locals double_mesh x1in y1in z1in x2in y2in z2in weights2in rsmooth = Inr L"
    and lA: "engine_loops L (lo, mid) = Inr sA"
    and uA: "unsort (idx_sorted (mesh1 double_mesh)) sA = Inr (tensorA, sum_weightsA)"
    by (auto simp: inertia_tensor_per_object_engine_def bind_r_eq_Inr)
  from B L obtain sB where
    lB: "engine_loops L (mid, hi) = Inr sB"
    and uB: "unsort (idx_sorted (mesh1 double_mesh)) sB = Inr (tensorB, sum_weightsB)"
    by (auto simp: inertia_tensor_per_object_engine_def bind_r_eq_Inr)
  have "engine_loops L (lo, hi) = Inr (acc_add sA sB)"
    by (rule engine_loops_split[OF assms(1,2) lA lB])
  moreover have "unsort (idx_sorted (mesh1 double_mesh)) (acc_add sA sB)
                 = Inr (acc_add (tensorA, sum_weightsA) (tensorB, sum_weightsB))"
    by (rule unsort_acc_add[OF engine_loops_shape[OF lA] engine_loops_shape[OF lB] uA uB])
  ultimately show ?thesis
    using L by (simp add: inertia_tensor_per_object_engine_def acc_add_def)
qed

theorem range_partition_additive_witness:
  "(0 :: int) \<le> 10 \<and> (10 :: int) \<le> 64
   \<and> inertia_tensor_per_object_engine two_dm [9, 1 / 2] [1 / 2, 1 / 2] [1 / 2, 1 / 2]
        [96 / 10] [1 / 2] [1 / 2] [1] 1 (0, 10)
       = Inr ([tensor_zero, tensor_zero\<lparr>t00 := 81 / 100\<rparr>], [0, 1])
   \<and> inertia_tensor_per_object_engine two_dm [9, 1 / 2] [1 / 2, 1 / 2] [1 / 2, 1 / 2]
        [96 / 10] [1 / 2] [1 / 2] [1] 1 (10, 64)
       = Inr ([tensor_zero\<lparr>t00 := 36 / 100\<rparr>, tensor_zero], [1, 0])
   \<and> inertia_tensor_per_object_engine two_dm [9, 1 / 2] [1 / 2, 1 / 2] [1 / 2, 1 / 2]
        [96 / 10] [1 / 2] [1 / 2] [1] 1 (0, 64)
       = Inr ([tensor_zero\<lparr>t00 := 36 / 100\<rparr>, tensor_zero\<lparr>t00 := 81 / 100\<rparr>], [1, 1])"
proof -
  have A: "inertia_tensor_per_object_engine two_dm [9, 1 / 2] [1 / 2, 1 / 2] [1 / 2, 1 / 2]
        [96 / 10] [1 / 2] [1 / 2] [1] 1 (0, 10)
       = Inr ([tensor_zero, tensor_zero\<lparr>t00 := 81 / 100\<rparr>], [0, 1])"
    by code_simp
  have B: "inertia_tensor_per_object_engine two_dm [9, 1 / 2] [1 / 2, 1 / 2] [1 / 2, 1 / 2]
        [96 / 10] [1 / 2] [1 / 2] [1] 1 (10, 64)
       = Inr ([tensor_zero\<lparr>t00 := 36 / 100\<rparr>, tensor_zero], [1, 0])"
    by code_simp
  from range_partition_additive[OF _ _ A B] A B show ?thesis
    by (simp add: tensor_add_def tensor_zero_def)
qed

subsection \<open>C8: the weight sum grows with the radius\<close>

text \<open>
  Claim C8 says that for any two radii \<open>r1 \<le> r2\<close> the weight sum of each primary point
  under \<open>r1\<close> is at most the one under \<open>r2\<close>, the weights being non-negative. The engine
  accepts a negative radius and reads it through its square: in the periodic box the
  radius \<open>-1\<close> gives the weight sum 1 and the larger radius \<open>1/2\<close> gives 0.
\<close>

theorem radius_order_counterexample:
  "(- 1 :: real) \<le> 1 / 2
   \<and> inertia_tensor_per_object_engine wrap_dm [1 / 2] [0] [0] [96 / 10] [0] [0] [1] (- 1) (0, 64)
       = Inr ([tensor_zero\<lparr>t00 := 81 / 100\<rparr>], [1])
   \<and> inertia_tensor_per_object_engine wrap_dm [1 / 2] [0] [0] [96 / 10] [0] [0] [1] (1 / 2) (0, 64)
       = Inr ([tensor_zero], [0])
   \<and> \<not> ([1 :: real] ! 0 \<le> [0] ! 0)"
proof -
  have "inertia_tensor_per_object_engine wrap_dm [1 / 2] [0] [0] [96 / 10] [0] [0] [1] (- 1) (0, 64)
       = Inr ([tensor_zero\<lparr>t00 := 81 / 100\<rparr>], [1])"
    by code_simp
  moreover
  have "inertia_tensor_per_object_engine wrap_dm [1 / 2] [0] [0] [96 / 10] [0] [0] [1] (1 / 2) (0, 64)
       = Inr ([tensor_zero], [0])"
    by code_simp
  ultimately show ?thesis by simp
qed

text \<open>
  C8 as amended: for two non-negative radii \<open>0 \<le> r1 \<le> r2\<close>, the same meshes, points and
  cell range, and non-negative weights of sample 2, whenever the engine returns for both
  radii the weight sum of every primary point under \<open>r1\<close> is at most its weight sum under
  \<open>r2\<close>.
\<close>

theorem radius_monotone:
  assumes "0 \<le> r1" "r1 \<le> r2" "\<forall>w \<in> set weights2in. 0 \<le> w"
    and 1: "inertia_tensor_per_object_engine double_mesh x1in y1in z1in x2in y2in z2in weights2in
             r1 cell1_tuple = Inr (tensor1, sum_weights1)"
    and 2: "inertia_tensor_per_object_engine double_mesh x1in y1in z1in x2in y2in z2in weights2in
             r2 cell1_tuple = Inr (tensor2, sum_weights2)"
    and "i < length sum_weights1"
  shows "sum_weights1 ! i \<le> sum_weights2 ! i"
proof -
  from 1 obtain L s1 where
    L: "engine_locals double_mesh x1in y1in z1in x2in y2in z2in weights2in r1 = Inr L"
    and l1: "engine_loops L cell1_tuple = Inr s1"
    and u1: "unsort (idx_sorted (mesh1 double_mesh)) s1 = Inr (tensor1, sum_weights1)"
    by (auto simp: inertia_tensor_per_object_engine_def bind_r_eq_Inr)
  note L2 = engine_locals_radius(1)[OF L, of r2] engine_locals_radius(2,3)[OF L]
  from 2 L2(1) obtain s2 where
    l2: "engine_loops (L\<lparr>rsmooth_squared := r2 * r2\<rparr>) cell1_tuple = Inr s2"
    and u2: "unsort (idx_sorted (mesh1 double_mesh)) s2 = Inr (tensor2, sum_weights2)"
    by (auto simp: inertia_tensor_per_object_engine_def bind_r_eq_Inr)
  have "r1 * r1 \<le> r2 * r2" using assms(1,2) by (simp add: mult_mono)
  then have "pair_rel weight_le (rsmooth_squared L) (r2 * r2) {w. 0 \<le> w}"
    using L2(2) by (simp add: weight_le_pair_rel)
  moreover have "set (w2_sorted L) \<subseteq> {w. 0 \<le> w}" using L2(3) assms(3) by auto
  ultimately have H: "pair_rel weight_le (rsmooth_squared L) (r2 * r2) (set (w2_sorted L))"
    unfolding pair_rel_def by blast
  have "weight_le s1 s2"
    by (rule engine_loops_rel[OF H _ l1 l2]) (simp add: weight_le_def)
  from unsort_weight_le[OF this u1 u2] assms(6) show ?thesis
    by (simp add: weight_le_def)
qed

theorem radius_monotone_witness:
  "(0 :: real) \<le> 1 / 2 \<and> (1 / 2 :: real) \<le> 1 \<and> list_all (\<lambda>w. 0 \<le> w) [1 :: real]
   \<and> inertia_tensor_per_object_engine wrap_dm [1 / 2] [0] [0] [96 / 10] [0] [0] [1] (1 / 2) (0, 64)
       = Inr ([tensor_zero], [0])
   \<and> inertia_tensor_per_object_engine wrap_dm [1 / 2] [0] [0] [96 / 10] [0] [0] [1] 1 (0, 64)
       = Inr ([tensor_zero\<lparr>t00 := 81 / 100\<rparr>], [1])
   \<and> [0 :: real] ! 0 \<le> [1] ! 0"
proof -
  have 1: "inertia_tensor_per_object_engine wrap_dm [1 / 2] [0] [0] [96 / 10] [0] [0] [1] (1 / 2)
             (0, 64) = Inr ([tensor_zero], [0])"
    by code_simp
  have 2: "inertia_tensor_per_object_engine wrap_dm [1 / 2] [0] [0] [96 / 10] [0] [0] [1] 1 (0, 64)
       = Inr ([tensor_zero\<lparr>t00 := 81 / 100\<rparr>], [1])"
    by code_simp
  have w: "\<forall>w \<in> set [1 :: real]. 0 \<le> w" by simp
  from radius_monotone[OF _ _ w 1 2, of 0] 1 2 show ?thesis by simp
qed

subsection \<open>C9: pairs at zero separation\<close>


text \<open>
  The body of the innermost loop (lines 199 to 228) on such a pair: when the point \<open>j\<close> of
  the cell of mesh 2 has the (shifted) coordinates of the primary point and the squared
  radius is positive, the iteration adds the weight of \<open>j\<close> to the weight sum of the
  primary point \<open>p\<close> and leaves every entry of the tensor array as it was.
\<close>

lemma pair_step_zero_separation:
  assumes "0 < rsq"
    and "mv_get x_icell2 j = Inr x1tmp" and "mv_get y_icell2 j = Inr y1tmp"
    and "mv_get z_icell2 j = Inr z1tmp" and "mv_get w_icell2 j = Inr w2"
    and "0 \<le> p" and "p < int (length inertia_tensor)" and "p < int (length sum_weights)"
  shows "pair_step rsq p x1tmp y1tmp z1tmp x_icell2 y_icell2 z_icell2 w_icell2 j
           (inertia_tensor, sum_weights)
         = Inr (inertia_tensor, sum_weights[nat p := sum_weights ! nat p + w2])"
proof -
  have "tensor_add t (outer3 w2 0 0 0) = t" for t
    by (cases t) (simp add: tensor_add_def outer3_def)
  with assms show ?thesis
    by (simp add: pair_step_def Let_def accumulate_eq)
qed



subsection \<open>C1: cells outside the grid of a box without periodicity\<close>

text \<open>
  Claim C1 says that, without periodicity, a secondary cell whose unwrapped index lies
  outside the grid is skipped, so that no point is reached through a wrapped index. The
  engine has no such skip: lines 151, 161 and 171 wrap every index of the window with
  \<^verbatim>\<open>%\<close> whatever the flag, and the flag only zeroes the shift (lines 144 to 149). In
  the box of 2 by 2 by 2 cells of side 5 without periodicity, with search length 2, the
  window of the primary cell 0 holds the indices -1, 0 and 1 along \<open>x\<close>; the index -1 is
  wrapped to the cell 1, which is so visited twice: the one secondary point, of weight 1
  and at distance 1 from the primary point, gives the weight sum 2.
\<close>

theorem nonperiodic_wrapped_cell_visited:
  "\<not> PBCs box_dm
   \<and> inertia_tensor_per_object_engine box_dm [9 / 2] [1] [1] [11 / 2] [1] [1] [1] 2 (0, 8)
       = Inr ([tensor_zero\<lparr>t00 := 2\<rparr>], [2])"
  by code_simp

text \<open>
  C1 as amended: without periodicity the engine wraps the indices of the window and
  applies a zero shift, so every pair it tests is tested at its true separation. On a
  well-formed double mesh (both meshes index their points, the search lengths cover the
  radius, and the window of a primary cell is no wider than the secondary grid), the run
  over all primary cells returns for every primary point the sum over the secondary
  points whose true separation is below the radius: a point near one face of the box
  receives nothing from the points near the opposite face.
\<close>

theorem nonperiodic_true_separations:
  assumes "double_mesh_ok double_mesh x1in y1in z1in x2in y2in z2in weights2in rsmooth"
    and "\<not> PBCs double_mesh"
  shows "inertia_tensor_per_object_engine double_mesh x1in y1in z1in x2in y2in z2in weights2in
           rsmooth (0, ncells (mesh1 double_mesh))
         = Inr (direct_sum x1in y1in z1in x2in y2in z2in weights2in rsmooth)"
  using engine_refines_brute_force[OF assms(1)] brute_force_nonperiodic[OF assms(2)]
  by simp

text \<open>
  The theorem at a box of 4 by 4 by 4 cells of side 2.5 without periodicity: the primary
  point at \<open>x = 9\<close> receives the secondary point at \<open>x = 9.6\<close>; the primary point at
  \<open>x = 0.5\<close>, whose window reaches that point's cell through the wrapped index -1, receives
  nothing.
\<close>

theorem nonperiodic_true_separations_witness:
  "double_mesh_ok np_dm [9, 1 / 2] [1 / 2, 1 / 2] [1 / 2, 1 / 2] [96 / 10] [1 / 2] [1 / 2] [1] 1
   \<and> \<not> PBCs np_dm
   \<and> inertia_tensor_per_object_engine np_dm [9, 1 / 2] [1 / 2, 1 / 2] [1 / 2, 1 / 2]
         [96 / 10] [1 / 2] [1 / 2] [1] 1 (0, ncells (mesh1 np_dm))
       = Inr (direct_sum [9, 1 / 2] [1 / 2, 1 / 2] [1 / 2, 1 / 2] [96 / 10] [1 / 2] [1 / 2] [1] 1)
   \<and> direct_sum [9, 1 / 2] [1 / 2, 1 / 2] [1 / 2, 1 / 2] [96 / 10] [1 / 2] [1 / 2] [1] 1
       = ([tensor_zero\<lparr>t00 := 36 / 100\<rparr>, tensor_zero], [1, 0])"
proof -
  have ok: "double_mesh_ok np_dm [9, 1 / 2] [1 / 2, 1 / 2] [1 / 2, 1 / 2]
              [96 / 10] [1 / 2] [1 / 2] [1] 1"
    by code_simp
  have np: "\<not> PBCs np_dm" by code_simp
  have v: "direct_sum [9, 1 / 2] [1 / 2, 1 / 2] [1 / 2, 1 / 2] [96 / 10] [1 / 2] [1 / 2] [1] 1
             = ([tensor_zero\<lparr>t00 := 36 / 100\<rparr>, tensor_zero], [1, 0])"
    by code_simp
  from nonperiodic_true_separations[OF ok np] ok np v show ?thesis by blast
qed

subsection \<open>C2: every pair within the radius is counted once\<close>

text \<open>
  Claim C2 says that a pair within the radius contributes exactly once, also when the
  covering window spans more cells than the secondary grid has on some axis. The engine
  visits one cell for every index of the window, after wrapping the index with
  \<^verbatim>\<open>%\<close> (lines 143 to 173), so a cell is visited once for every index of the window
  that is congruent to it. In the spec's concrete scenario (single-cell grids, no
  periodicity, search length 2, the primary point at the origin, the secondary point at
  \<open>(1, 0, 0)\<close> with weight 2, radius 2) the window holds the indices -1, 0 and 1 on each
  axis, all of them the cell 0: the pair is counted 27 times, and the weight sum is 54.
\<close>

theorem wide_window_counts_pair_again:
  "inertia_tensor_per_object_engine one_dm [0] [0] [0] [1] [0] [0] [2] 2 (0, 1)
     = Inr ([tensor_zero\<lparr>t00 := 54\<rparr>], [54])"
  by code_simp

text \<open>
  C2 as amended: on a well-formed double mesh, where on every axis the window of a
  primary cell is no wider than the secondary grid and the search length covers the
  radius, the run over all primary cells returns, for every primary point, the sum over
  every secondary point and every one of its images within the radius, each taken once;
  and a secondary point has at most one image within the radius of a primary point.
\<close>

theorem pairs_counted_once:
  assumes "double_mesh_ok double_mesh x1in y1in z1in x2in y2in z2in weights2in rsmooth"
  shows "inertia_tensor_per_object_engine double_mesh x1in y1in z1in x2in y2in z2in weights2in
           rsmooth (0, ncells (mesh1 double_mesh))
         = Inr (brute_force double_mesh x1in y1in z1in x2in y2in z2in weights2in rsmooth)
       \<and> (\<forall>i j. length (images_within double_mesh x1in y1in z1in x2in y2in z2in rsmooth i j)
                   \<le> 1)"
  using engine_refines_brute_force[OF assms] images_unique[OF assms] by simp

text \<open>
  The theorem at the periodic box of period 10 with two primary points: the point at
  \<open>x = 9\<close> receives the secondary point at \<open>x = 9.6\<close> directly, the point at \<open>x = 0.5\<close>
  receives its image at \<open>x = -0.4\<close>, each once.
\<close>

theorem pairs_counted_once_witness:
  "double_mesh_ok two_dm [9, 1 / 2] [1 / 2, 1 / 2] [1 / 2, 1 / 2] [96 / 10] [1 / 2] [1 / 2] [1] 1
   \<and> inertia_tensor_per_object_engine two_dm [9, 1 / 2] [1 / 2, 1 / 2] [1 / 2, 1 / 2]
         [96 / 10] [1 / 2] [1 / 2] [1] 1 (0, ncells (mesh1 two_dm))
       = Inr (brute_force two_dm [9, 1 / 2] [1 / 2, 1 / 2] [1 / 2, 1 / 2]
                [96 / 10] [1 / 2] [1 / 2] [1] 1)
   \<and> brute_force two_dm [9, 1 / 2] [1 / 2, 1 / 2] [1 / 2, 1 / 2] [96 / 10] [1 / 2] [1 / 2] [1] 1
       = ([tensor_zero\<lparr>t00 := 36 / 100\<rparr>, tensor_zero\<lparr>t00 := 81 / 100\<rparr>], [1, 1])"
proof -
  have ok: "double_mesh_ok two_dm [9, 1 / 2] [1 / 2, 1 / 2] [1 / 2, 1 / 2]
              [96 / 10] [1 / 2] [1 / 2] [1] 1"
    by code_simp
  have n: "ncells (mesh1 two_dm) = 64" by code_simp
  have e: "inertia_tensor_per_object_engine two_dm [9, 1 / 2] [1 / 2, 1 / 2] [1 / 2, 1 / 2]
             [96 / 10] [1 / 2] [1 / 2] [1] 1 (0, 64)
             = Inr ([tensor_zero\<lparr>t00 := 36 / 100\<rparr>, tensor_zero\<lparr>t00 := 81 / 100\<rparr>],
                    [1, 1])"
    by code_simp
  from pairs_counted_once[OF ok]
  have r: "inertia_tensor_per_object_engine two_dm [9, 1 / 2] [1 / 2, 1 / 2] [1 / 2, 1 / 2]
             [96 / 10] [1 / 2] [1 / 2] [1] 1 (0, ncells (mesh1 two_dm))
             = Inr (brute_force two_dm [9, 1 / 2] [1 / 2, 1 / 2] [1 / 2, 1 / 2]
                      [96 / 10] [1 / 2] [1 / 2] [1] 1)"
    by (rule conjunct1)
  from r e have v: "brute_force two_dm [9, 1 / 2] [1 / 2, 1 / 2] [1 / 2, 1 / 2]
             [96 / 10] [1 / 2] [1 / 2] [1] 1
             = ([tensor_zero\<lparr>t00 := 36 / 100\<rparr>, tensor_zero\<lparr>t00 := 81 / 100\<rparr>], [1, 1])"
    unfolding n by simp
  from r ok v show ?thesis by blast
qed

subsection \<open>C10: the arrays of the caller are not modified\<close>

text \<open>
  Claim C10 says that every invocation leaves the arrays of the caller unmodified. The
  engine is compiled without bounds checks (lines 15 and 16), and the row it writes to,
  \<^verbatim>\<open>ifirst1 + i\<close>, comes from the index array of mesh 1, which nothing validates. In
  the periodic box with the index array that gives the cell 48 the range from -1 to 2,
  the point read as \<^verbatim>\<open>x_icell1[0]\<close> is within the radius of the secondary point, and
  line 215 writes the row -1 of the tensor array, outside the array: the run is undefined
  behaviour, and nothing holds of the store after it.
\<close>

theorem unchecked_write_outside_array:
  "inertia_tensor_per_object_engine_h bad_dm 0 1 2 3 4 5 6 1 (48, 49) two_heap = None"
  by code_simp

text \<open>
  C10 as amended: in every invocation that makes no element access outside an array,
  every array that exists when the engine is called, the seven arrays of the caller among
  them, is the same array in the store the call leaves, whether the call returns or
  raises. The engine reads the inputs only to make its sorted copies, which are new
  arrays, and writes only to the two arrays of zeros it has made.
\<close>

theorem inputs_unmodified:
  assumes "inertia_tensor_per_object_engine_h double_mesh x1in y1in z1in x2in y2in z2in
             weights2in rsmooth cell1_tuple h = Some (r, h')"
    and "a < length h"
  shows "h' ! a = h ! a"
proof -
  have "frame (length h) (\<lambda>_. True)
          (inertia_tensor_per_object_engine_h double_mesh x1in y1in z1in x2in y2in z2in
             weights2in rsmooth cell1_tuple)"
    by (rule engine_frame)
  from frameD[OF this le_refl assms(1)]
  have "take (length h) h' = take (length h) h" .
  then have "take (length h) h' ! a = take (length h) h ! a" by simp
  with assms(2) show ?thesis by simp
qed

text \<open>
  The theorem at the periodic box with two primary points, for the run on the cell 48 of
  mesh 1. The store it leaves holds the seven arrays of the caller, the seven sorted
  copies, the two output arrays, their two copies and the two arrays that are returned,
  which hold what the engine on values returns for the same input.
\<close>

theorem inputs_unmodified_witness:
  "inertia_tensor_per_object_engine_h two_dm 0 1 2 3 4 5 6 1 (48, 49) two_heap
     = Some (Inr (19, 18),
         [Floats [9, 1 / 2], Floats [1 / 2, 1 / 2], Floats [1 / 2, 1 / 2],
          Floats [96 / 10], Floats [1 / 2], Floats [1 / 2], Floats [1],
          Floats [1 / 2, 9], Floats [1 / 2, 1 / 2], Floats [1 / 2, 1 / 2],
          Floats [96 / 10], Floats [1 / 2], Floats [1 / 2], Floats [1],
          Tensors [tensor_zero, tensor_zero\<lparr>t00 := 36 / 100\<rparr>], Floats [0, 1],
          Tensors [tensor_zero, tensor_zero\<lparr>t00 := 36 / 100\<rparr>], Floats [0, 1],
          Floats [1, 0], Tensors [tensor_zero\<lparr>t00 := 36 / 100\<rparr>, tensor_zero]])
   \<and> 0 < length two_heap
   \<and> [Floats [9, 1 / 2], Floats [1 / 2, 1 / 2], Floats [1 / 2, 1 / 2],
       Floats [96 / 10], Floats [1 / 2], Floats [1 / 2], Floats [1],
       Floats [1 / 2, 9], Floats [1 / 2, 1 / 2], Floats [1 / 2, 1 / 2],
       Floats [96 / 10], Floats [1 / 2], Floats [1 / 2], Floats [1],
       Tensors [tensor_zero, tensor_zero\<lparr>t00 := 36 / 100\<rparr>], Floats [0, 1],
       Tensors [tensor_zero, tensor_zero\<lparr>t00 := 36 / 100\<rparr>], Floats [0, 1],
       Floats [1, 0], Tensors [tensor_zero\<lparr>t00 := 36 / 100\<rparr>, tensor_zero]] ! 0
     = two_heap ! 0
   \<and> inertia_tensor_per_object_engine two_dm [9, 1 / 2] [1 / 2, 1 / 2] [1 / 2, 1 / 2]
         [96 / 10] [1 / 2] [1 / 2] [1] 1 (48, 49)
       = Inr ([tensor_zero\<lparr>t00 := 36 / 100\<rparr>, tensor_zero], [1, 0])"
proof -
  have run: "inertia_tensor_per_object_engine_h two_dm 0 1 2 3 4 5 6 1 (48, 49) two_heap
     = Some (Inr (19, 18),
         [Floats [9, 1 / 2], Floats [1 / 2, 1 / 2], Floats [1 / 2, 1 / 2],
          Floats [96 / 10], Floats [1 / 2], Floats [1 / 2], Floats [1],
          Floats [1 / 2, 9], Floats [1 / 2, 1 / 2], Floats [1 / 2, 1 / 2],
          Floats [96 / 10], Floats [1 / 2], Floats [1 / 2], Floats [1],
          Tensors [tensor_zero, tensor_zero\<lparr>t00 := 36 / 100\<rparr>], Floats [0, 1],
          Tensors [tensor_zero, tensor_zero\<lparr>t00 := 36 / 100\<rparr>], Floats [0, 1],
          Floats [1, 0], Tensors [tensor_zero\<lparr>t00 := 36 / 100\<rparr>, tensor_zero]])"
    by code_simp
  have l: "0 < length two_heap" by (simp add: two_heap_def)
  have v: "inertia_tensor_per_object_engine two_dm [9, 1 / 2] [1 / 2, 1 / 2] [1 / 2, 1 / 2]
             [96 / 10] [1 / 2] [1 / 2] [1] 1 (48, 49)
           = Inr ([tensor_zero\<lparr>t00 := 36 / 100\<rparr>, tensor_zero], [1, 0])"
    by code_simp
  from inputs_unmodified[OF run l] run l v show ?thesis by blast
qed

end
